theory Spec2Isabelle
  imports Complex_Main "HOL-Library.AList" "HOL-Library.Sublist"
begin

section \<open>Python values used by ImageGenerator.py\<close>

text \<open>
  Exceptions are values: every computation that can raise returns \<open>error + 'a\<close>,
  with \<open>Inl\<close> for the exception raised. The constructors carry the names of the
  Python exceptions the source can meet.
\<close>

datatype error =
    ValueError
  | IndexError
  | KeyError
  | ZeroDivisionError
  | UnboundLocalError
  | OSError
  | SystemError

subsection \<open>Strings\<close>

text \<open>
  A Python \<open>str\<close> is modelled as a \<open>string\<close> of ASCII characters. The functions
  below are \<open>str.isspace\<close>, \<open>str.lower\<close>, \<open>str.upper\<close>, \<open>str.strip\<close>,
  \<open>str.split\<close> without argument, \<open>" ".join\<close> and the operator \<open>in\<close> on strings, as
  they act on ASCII text. The ASCII whitespace characters of Python are the codes
  9 to 13 and 28 to 32.
\<close>

definition ascii :: "string \<Rightarrow> bool" where
  "ascii s = list_all (\<lambda>c. (of_char c :: nat) < 128) s"

definition is_space :: "char \<Rightarrow> bool" where
  "is_space c = (let n = (of_char c :: nat) in (9 \<le> n \<and> n \<le> 13) \<or> (28 \<le> n \<and> n \<le> 32))"

definition lower_char :: "char \<Rightarrow> char" where
  "lower_char c = (let n = (of_char c :: nat) in if 65 \<le> n \<and> n \<le> 90 then char_of (n + 32) else c)"

definition upper_char :: "char \<Rightarrow> char" where
  "upper_char c = (let n = (of_char c :: nat) in if 97 \<le> n \<and> n \<le> 122 then char_of (n - 32) else c)"

definition lower :: "string \<Rightarrow> string" where
  "lower s = map lower_char s"

definition upper :: "string \<Rightarrow> string" where
  "upper s = map upper_char s"

definition strip :: "string \<Rightarrow> string" where
  "strip s = rev (dropWhile is_space (rev (dropWhile is_space s)))"

function split_ws :: "string \<Rightarrow> string list" where
  "split_ws s =
     (case dropWhile is_space s of
        [] \<Rightarrow> []
      | c # cs \<Rightarrow>
          takeWhile (\<lambda>d. \<not> is_space d) (c # cs) # split_ws (dropWhile (\<lambda>d. \<not> is_space d) (c # cs)))"
  by pat_completeness auto
termination
proof (relation "measure length")
  show "wf (measure length)" by simp
next
  fix s :: string and c cs
  assume a: "dropWhile is_space s = c # cs"
  have "\<not> is_space c" using a by (metis hd_dropWhile list.sel(1) list.distinct(1))
  then have "length (dropWhile (\<lambda>d. \<not> is_space d) (c # cs)) \<le> length cs"
    by (simp add: length_dropWhile_le)
  moreover have "length (c # cs) \<le> length s"
    using a length_dropWhile_le [of is_space s] by simp
  ultimately show "(dropWhile (\<lambda>d. \<not> is_space d) (c # cs), s) \<in> measure length"
    by simp
qed

declare split_ws.simps [simp del]

fun join_sp :: "string list \<Rightarrow> string" where
  "join_sp [] = []"
| "join_sp [w] = w"
| "join_sp (w # v # ws) = w @ '' '' @ join_sp (v # ws)"

fun is_substring :: "string \<Rightarrow> string \<Rightarrow> bool" where
  "is_substring k [] = (k = [])"
| "is_substring k (c # cs) = (prefix k (c # cs) \<or> is_substring k cs)"

subsection \<open>Numbers\<close>

text \<open>
  A Python \<open>int\<close> is an \<open>int\<close>. A Python \<open>float\<close> is modelled by the real number it
  denotes; every floating-point operation computes the exact real result and rounds it
  with the rounding function \<open>fl\<close> of the environment (declared below). The theorems
  about floating-point code assume of \<open>fl\<close> only what \<open>rounding\<close> says: rounding is
  monotone and leaves the integers up to \<open>2\<^sup>5\<^sup>3\<close> unchanged, as round-to-nearest of
  binary64 does. \<open>int(x)\<close> on a float truncates towards zero.
\<close>

definition rounding :: "(real \<Rightarrow> real) \<Rightarrow> bool" where
  "rounding f = (mono f \<and> (\<forall>k :: int. \<bar>k\<bar> \<le> 2 ^ 53 \<longrightarrow> f (of_int k) = of_int k))"

definition py_trunc :: "real \<Rightarrow> int" where
  "py_trunc x = (if 0 \<le> x then \<lfloor>x\<rfloor> else \<lceil>x\<rceil>)"

text \<open>\<open>seq[i]\<close> for \<open>i \<ge> 0\<close>, \<open>seq[i:j]\<close> and \<open>range(n)\<close>.\<close>

definition nth_py :: "'a list \<Rightarrow> nat \<Rightarrow> error + 'a" where
  "nth_py xs i = (if i < length xs then Inr (xs ! i) else Inl IndexError)"

definition slice :: "'a list \<Rightarrow> nat \<Rightarrow> nat \<Rightarrow> 'a list" where
  "slice xs i j = take (j - i) (drop i xs)"

definition py_range :: "int \<Rightarrow> int list" where
  "py_range n = map int [0..<nat n]"

text \<open>
  \<open>int(s, 16)\<close> on ASCII text: surrounding whitespace is dropped, one sign and one
  prefix \<open>0x\<close> are allowed, and single underscores may separate the digits. Every other
  string is a ValueError. The whitespace that \<open>int\<close> drops is that of C, the codes 9 to
  13 and 32: the separators 28 to 31, which \<open>str.strip\<close> drops, make \<open>int\<close> fail.
\<close>

definition int_space :: "char \<Rightarrow> bool" where
  "int_space c = (let n = (of_char c :: nat) in (9 \<le> n \<and> n \<le> 13) \<or> n = 32)"

definition hex_digit :: "char \<Rightarrow> int option" where
  "hex_digit c =
     (let n = (of_char c :: nat)
      in if 48 \<le> n \<and> n \<le> 57 then Some (int n - 48)
         else if 97 \<le> n \<and> n \<le> 102 then Some (int n - 87)
         else if 65 \<le> n \<and> n \<le> 70 then Some (int n - 55)
         else None)"

fun digits16 :: "int \<Rightarrow> string \<Rightarrow> error + int" where
  "digits16 acc [] = Inr acc"
| "digits16 acc (c # cs) =
     (if c = CHR ''_'' then
        (case cs of
           [] \<Rightarrow> Inl ValueError
         | d # ds \<Rightarrow> (case hex_digit d of None \<Rightarrow> Inl ValueError | Some v \<Rightarrow> digits16 (16 * acc + v) ds))
      else (case hex_digit c of None \<Rightarrow> Inl ValueError | Some v \<Rightarrow> digits16 (16 * acc + v) cs))"

definition int16 :: "string \<Rightarrow> error + int" where
  "int16 s =
     (let t = rev (dropWhile int_space (rev (dropWhile int_space s)));
          negative = (t \<noteq> [] \<and> hd t = CHR ''-'');
          u = (if t \<noteq> [] \<and> (hd t = CHR ''-'' \<or> hd t = CHR ''+'') then tl t else t);
          prefixed = (take 2 u = ''0x'' \<or> take 2 u = ''0X'');
          v = (if prefixed then drop 2 u else u);
          body = (if prefixed \<and> v \<noteq> [] \<and> hd v = CHR ''_'' then tl v else v)
      in case body of
           [] \<Rightarrow> Inl ValueError
         | c # cs \<Rightarrow>
             (case hex_digit c of
                None \<Rightarrow> Inl ValueError
              | Some d \<Rightarrow>
                  (case digits16 d cs of
                     Inl e \<Rightarrow> Inl e
                   | Inr n \<Rightarrow> Inr (if negative then - n else n))))"

text \<open>A valid six-digit hex colour is \<open>#\<close> followed by six hexadecimal digits; its RGB
  triple reads each pair of digits as a number from 0 to 255.\<close>

definition valid_hex :: "string \<Rightarrow> bool" where
  "valid_hex color = (length color = 7 \<and> hd color = CHR ''#'' \<and> list_all (\<lambda>c. hex_digit c \<noteq> None) (tl color))"

definition hex_value :: "char \<Rightarrow> int" where
  "hex_value c = (case hex_digit c of None \<Rightarrow> 0 | Some v \<Rightarrow> v)"

definition rgb_triple :: "string \<Rightarrow> int \<times> int \<times> int" where
  "rgb_triple color =
     (16 * hex_value (color ! 1) + hex_value (color ! 2),
      16 * hex_value (color ! 3) + hex_value (color ! 4),
      16 * hex_value (color ! 5) + hex_value (color ! 6))"

subsection \<open>Images of the Pillow library\<close>

text \<open>
  An image has a mode, a size and a raster. The raster maps coordinates to four
  channels; in an image of mode \<open>RGB\<close> the fourth channel is the padding byte 255, as
  Pillow stores it. Only \<open>getpixel\<close> reads a pixel, and it fails outside the image.
\<close>

datatype mode = RGB | RGBA

type_synonym rgba = "int \<times> int \<times> int \<times> int"

type_synonym raster = "int \<Rightarrow> int \<Rightarrow> rgba"

record image =
  im_mode :: mode
  im_width :: int
  im_height :: int
  im_px :: raster

definition rgb_of :: "rgba \<Rightarrow> int \<times> int \<times> int" where
  "rgb_of p = (case p of (r, g, b, a) \<Rightarrow> (r, g, b))"

definition inside :: "image \<Rightarrow> int \<Rightarrow> int \<Rightarrow> bool" where
  "inside im x y = (0 \<le> x \<and> x < im_width im \<and> 0 \<le> y \<and> y < im_height im)"

definition getpixel :: "image \<Rightarrow> int \<Rightarrow> int \<Rightarrow> error + int list" where
  "getpixel im x y =
     (if inside im x y
      then (case im_px im x y of (r, g, b, a) \<Rightarrow> Inr (if im_mode im = RGB then [r, g, b] else [r, g, b, a]))
      else Inl IndexError)"

definition clip8 :: "int \<Rightarrow> int" where
  "clip8 v = (if v < 0 then 0 else if 255 < v then 255 else v)"

text \<open>The ink of a colour tuple: three channels get the alpha 255, and every channel
  is clipped to a byte.\<close>

definition ink3 :: "int \<times> int \<times> int \<Rightarrow> rgba" where
  "ink3 c = (case c of (r, g, b) \<Rightarrow> (clip8 r, clip8 g, clip8 b, 255))"

definition ink4 :: "rgba \<Rightarrow> rgba" where
  "ink4 c = (case c of (r, g, b, a) \<Rightarrow> (clip8 r, clip8 g, clip8 b, clip8 a))"

text \<open>\<open>Image.new(mode, (width, height), color)\<close>\<close>

definition Image_new :: "mode \<Rightarrow> int \<Rightarrow> int \<Rightarrow> rgba \<Rightarrow> error + image" where
  "Image_new m w h color =
     (if w < 0 \<or> h < 0 then Inl ValueError
      else Inr \<lparr>im_mode = m, im_width = w, im_height = h, im_px = (\<lambda>x y. color)\<rparr>)"

text \<open>\<open>image.convert(mode)\<close> between the two modes: to \<open>RGBA\<close> the alpha is 255, to
  \<open>RGB\<close> the alpha is dropped.\<close>

definition convert :: "image \<Rightarrow> mode \<Rightarrow> image" where
  "convert im m =
     im\<lparr>im_mode := m,
        im_px := (\<lambda>x y. case im_px im x y of (r, g, b, a) \<Rightarrow>
                 (r, g, b, if m = RGBA \<and> im_mode im = RGBA then a else 255))\<rparr>"

text \<open>
  \<open>Image.alpha_composite(dst, src)\<close>: both images are \<open>RGBA\<close> and of one size, or it is
  a ValueError. A source pixel with alpha 0 leaves the destination pixel as it is; the
  other pixels are blended in Pillow's fixed-point arithmetic (seven extra bits, the
  division by 255 done by shifts).
\<close>

definition shift_for_div255 :: "int \<Rightarrow> int" where
  "shift_for_div255 a = ((a div 256) + a) div 256"

definition over :: "rgba \<Rightarrow> rgba \<Rightarrow> rgba" where
  "over dst src =
     (case dst of (dr, dg, db, da) \<Rightarrow>
      case src of (sr, sg, sb, sa) \<Rightarrow>
        if sa = 0 then dst
        else
          (let blend = da * (255 - sa);
               outa255 = sa * 255 + blend;
               coef1 = sa * 255 * 255 * 128 div outa255;
               coef2 = 255 * 128 - coef1
           in (shift_for_div255 (sr * coef1 + dr * coef2 + 128 * 128) div 128,
               shift_for_div255 (sg * coef1 + dg * coef2 + 128 * 128) div 128,
               shift_for_div255 (sb * coef1 + db * coef2 + 128 * 128) div 128,
               shift_for_div255 (outa255 + 128))))"

definition alpha_composite :: "image \<Rightarrow> image \<Rightarrow> error + image" where
  "alpha_composite dst src =
     (if im_mode dst \<noteq> RGBA \<or> im_mode src \<noteq> RGBA
         \<or> im_width dst \<noteq> im_width src \<or> im_height dst \<noteq> im_height src
      then Inl ValueError
      else Inr (dst\<lparr>im_px := (\<lambda>x y. over (im_px dst x y) (im_px src x y))\<rparr>))"

text \<open>The drawing operations of \<open>ImageDraw\<close> replace the pixels of the shape by the ink.\<close>

definition paint :: "image \<Rightarrow> (int \<Rightarrow> int \<Rightarrow> bool) \<Rightarrow> rgba \<Rightarrow> image" where
  "paint im shape ink = im\<lparr>im_px := (\<lambda>x y. if shape x y then ink else im_px im x y)\<rparr>"

definition draw_point :: "image \<Rightarrow> int \<times> int \<Rightarrow> rgba \<Rightarrow> image" where
  "draw_point im p ink = paint im (\<lambda>x y. (x, y) = p) ink"

definition draw_rectangle :: "image \<Rightarrow> int \<times> int \<times> int \<times> int \<Rightarrow> rgba \<Rightarrow> error + image" where
  "draw_rectangle im box ink =
     (case box of (x0, y0, x1, y1) \<Rightarrow>
        if x1 < x0 \<or> y1 < y0 then Inl ValueError
        else Inr (paint im (\<lambda>x y. x0 \<le> x \<and> x \<le> x1 \<and> y0 \<le> y \<and> y \<le> y1) ink))"

datatype font = TrueType string int | DefaultFont

datatype image_filter = GaussianBlur int | SHARPEN | EMBOSS | EDGE_ENHANCE | SMOOTH

subsection \<open>The environment\<close>

text \<open>
  What the program takes from outside its own text: the rounding of floats, the
  rasterisers of Pillow for ellipses, polygons, slanted lines and text, its filter
  kernels, its colour names and colour syntaxes other than \<open>#rrggbb\<close>, the fonts
  installed, the clock, the directory of the generator and whether a file can be
  written. The program is verified for every environment.
\<close>

record env =
  fl :: "real \<Rightarrow> real"
  ellipse_px :: "int \<times> int \<times> int \<times> int \<Rightarrow> int \<Rightarrow> int \<Rightarrow> bool"
  polygon_px :: "(int \<times> int) list \<Rightarrow> int \<Rightarrow> int \<Rightarrow> bool"
  line_px :: "int \<times> int \<Rightarrow> int \<times> int \<Rightarrow> int \<Rightarrow> int \<Rightarrow> bool"
  truetype_ok :: "string \<Rightarrow> int \<Rightarrow> bool"
  textbbox :: "font \<Rightarrow> string \<Rightarrow> int \<times> int \<times> int \<times> int"
  text_px :: "font \<Rightarrow> int \<times> int \<Rightarrow> string \<Rightarrow> rgba \<Rightarrow> image \<Rightarrow> raster"
  filter_px :: "image_filter \<Rightarrow> image \<Rightarrow> raster"
  other_color :: "string \<Rightarrow> (int \<times> int \<times> int) option"
  now :: "nat \<Rightarrow> string"
  output_dir :: string
  save_ok :: "string \<Rightarrow> bool"

text \<open>\<open>ImageColor.getrgb(color)\<close>, which the drawing operations apply to a fill given as
  a string.\<close>

definition getrgb :: "env \<Rightarrow> string \<Rightarrow> error + int \<times> int \<times> int" where
  "getrgb E color =
     (if valid_hex color then Inr (rgb_triple color)
      else (case other_color E color of None \<Rightarrow> Inl ValueError | Some c \<Rightarrow> Inr c))"

definition draw_ellipse :: "env \<Rightarrow> image \<Rightarrow> int \<times> int \<times> int \<times> int \<Rightarrow> rgba \<Rightarrow> error + image" where
  "draw_ellipse E im box ink =
     (case box of (x0, y0, x1, y1) \<Rightarrow>
        if x1 < x0 \<or> y1 < y0 then Inl ValueError
        else Inr (paint im (ellipse_px E box) ink))"

definition draw_polygon :: "env \<Rightarrow> image \<Rightarrow> (int \<times> int) list \<Rightarrow> rgba \<Rightarrow> image" where
  "draw_polygon E im points ink = paint im (polygon_px E points) ink"

text \<open>\<open>draw.line([p, q], fill)\<close> of width one: a vertical or horizontal line is the run
  of pixels between its ends, both included.\<close>

definition draw_line :: "env \<Rightarrow> image \<Rightarrow> int \<times> int \<Rightarrow> int \<times> int \<Rightarrow> rgba \<Rightarrow> image" where
  "draw_line E im p q ink =
     (case p of (x0, y0) \<Rightarrow> case q of (x1, y1) \<Rightarrow>
        paint im
          (\<lambda>x y. if x0 = x1 then x = x0 \<and> min y0 y1 \<le> y \<and> y \<le> max y0 y1
                 else if y0 = y1 then y = y0 \<and> min x0 x1 \<le> x \<and> x \<le> max x0 x1
                 else line_px E p q x y)
          ink)"

definition draw_text :: "env \<Rightarrow> image \<Rightarrow> int \<times> int \<Rightarrow> string \<Rightarrow> rgba \<Rightarrow> font \<Rightarrow> image" where
  "draw_text E im pos txt ink f = im\<lparr>im_px := text_px E f pos txt ink im\<rparr>"

definition filter_image :: "env \<Rightarrow> image \<Rightarrow> image_filter \<Rightarrow> image" where
  "filter_image E im f = im\<lparr>im_px := filter_px E f im\<rparr>"

subsection \<open>The random module and the world outside the program\<close>

text \<open>
  The module-level generator of \<open>random\<close> is global mutable state. It is modelled as a
  tape of raw draws \<open>rng\<close> and the position \<open>rng_pos\<close> of the next draw: each call of
  \<open>random.choice\<close> or \<open>random.randint\<close> reads one cell and moves on. Every sequence of
  outcomes of the real generator is the reading of some tape. \<open>clock_pos\<close> counts the
  readings of the clock, \<open>stdout\<close> is the list of the messages printed so far, and
  \<open>files\<close> maps each path written to the image saved there.
\<close>

datatype msg =
    MsgEmptyPrompt
  | MsgGenerating string
  | MsgTheme string
  | MsgStyle string
  | MsgSuccess
  | MsgSaved string
  | MsgThemeStyle string string
  | MsgError error
  | MsgBatchStart nat
  | MsgProcessing nat nat string
  | MsgBatchComplete
  | MsgSuccessful nat nat

record world =
  rng :: "nat \<Rightarrow> nat"
  rng_pos :: nat
  clock_pos :: nat
  stdout :: "msg list"
  files :: "string \<Rightarrow> image option"

type_synonym 'a prog = "world \<Rightarrow> (error + 'a) \<times> world"

definition ret :: "'a \<Rightarrow> 'a prog" where
  "ret x w = (Inr x, w)"

definition raise :: "error \<Rightarrow> 'a prog" where
  "raise e w = (Inl e, w)"

definition bind :: "'a prog \<Rightarrow> ('a \<Rightarrow> 'b prog) \<Rightarrow> 'b prog" where
  "bind m f w = (case m w of (Inl e, w') \<Rightarrow> (Inl e, w') | (Inr x, w') \<Rightarrow> f x w')"

definition lift :: "error + 'a \<Rightarrow> 'a prog" where
  "lift r w = (r, w)"

text \<open>\<open>try: body except Exception as e: handler\<close>\<close>

definition catch :: "'a prog \<Rightarrow> (error \<Rightarrow> 'a prog) \<Rightarrow> 'a prog" where
  "catch m h w = (case m w of (Inl e, w') \<Rightarrow> h e w' | (Inr x, w') \<Rightarrow> (Inr x, w'))"

text \<open>\<open>for i in items: state = body(i, state)\<close>\<close>

fun for_each :: "'i list \<Rightarrow> ('i \<Rightarrow> 's \<Rightarrow> 's prog) \<Rightarrow> 's \<Rightarrow> 's prog" where
  "for_each [] body s = ret s"
| "for_each (i # is) body s = bind (body i s) (for_each is body)"

definition print :: "msg \<Rightarrow> unit prog" where
  "print m w = (Inr (), w\<lparr>stdout := stdout w @ [m]\<rparr>)"

definition draw_raw :: "nat prog" where
  "draw_raw w = (Inr (rng w (rng_pos w)), w\<lparr>rng_pos := Suc (rng_pos w)\<rparr>)"

text \<open>\<open>random.choice(seq)\<close>: IndexError on an empty sequence, otherwise one draw.\<close>

definition random_choice :: "'a list \<Rightarrow> 'a prog" where
  "random_choice xs =
     (if xs = [] then raise IndexError
      else bind draw_raw (\<lambda>r. ret (xs ! (r mod length xs))))"

text \<open>\<open>random.randint(a, b)\<close>: ValueError on an empty range, otherwise one draw
  mapped into \<open>a..b\<close>, both ends included.\<close>

definition random_randint :: "int \<Rightarrow> int \<Rightarrow> int prog" where
  "random_randint a b =
     (if b < a then raise ValueError
      else bind draw_raw (\<lambda>r. ret (a + int (r mod nat (b - a + 1)))))"

text \<open>\<open>datetime.now().strftime("%Y%m%d_%H%M%S")\<close> and \<open>image.save(filepath)\<close>. The
  file is opened first (an OSError if it cannot be written), then the image is encoded:
  the encoder of Pillow refuses an image without pixels with the SystemError
  \<open>tile cannot extend outside image\<close>.\<close>

definition timestamp_now :: "env \<Rightarrow> string prog" where
  "timestamp_now E w = (Inr (now E (clock_pos w)), w\<lparr>clock_pos := Suc (clock_pos w)\<rparr>)"

definition save :: "env \<Rightarrow> image \<Rightarrow> string \<Rightarrow> unit prog" where
  "save E im filepath w =
     (if \<not> save_ok E filepath then (Inl OSError, w)
      else if im_width im \<le> 0 \<or> im_height im \<le> 0 then (Inl SystemError, w)
      else (Inr (), w\<lparr>files := (files w)(filepath \<mapsto> im)\<rparr>))"

text \<open>\<open>os.path.join(a, b)\<close> for a relative \<open>b\<close>, with the separator of POSIX.\<close>

definition path_join :: "string \<Rightarrow> string \<Rightarrow> string" where
  "path_join a b = (if a = [] \<or> last a = CHR ''/'' then a @ b else a @ ''/'' @ b)"

section \<open>The theme catalog and \<open>detect_theme\<close>\<close>

text \<open>
  Both dictionaries are literals of the source; a Python dictionary iterates in
  insertion order, so each is an association list in the order written.
\<close>

definition color_themes :: "(string \<times> string list) list" where
  "color_themes =
    [(''nature'', [''#228B22'', ''#32CD32'', ''#90EE90'', ''#006400'', ''#8FBC8F'']),
     (''ocean'', [''#006994'', ''#4682B4'', ''#87CEEB'', ''#1E90FF'', ''#00CED1'']),
     (''sunset'', [''#FF6347'', ''#FF8C00'', ''#FFD700'', ''#FF69B4'', ''#DC143C'']),
     (''space'', [''#191970'', ''#4B0082'', ''#8B008B'', ''#9400D3'', ''#000080'']),
     (''forest'', [''#228B22'', ''#006400'', ''#8B4513'', ''#2E8B57'', ''#556B2F'']),
     (''city'', [''#696969'', ''#2F4F4F'', ''#708090'', ''#778899'', ''#A9A9A9'']),
     (''fire'', [''#FF4500'', ''#FF6347'', ''#FF8C00'', ''#FFD700'', ''#DC143C'']),
     (''ice'', [''#B0E0E6'', ''#87CEEB'', ''#ADD8E6'', ''#E0FFFF'', ''#F0F8FF'']),
     (''magic'', [''#9370DB'', ''#BA55D3'', ''#DA70D6'', ''#EE82EE'', ''#DDA0DD'']),
     (''retro'', [''#FF1493'', ''#00FFFF'', ''#FFFF00'', ''#FF69B4'', ''#00FF00''])]"

definition theme_keywords :: "(string \<times> string list) list" where
  "theme_keywords =
    [(''nature'', [''tree'', ''grass'', ''plant'', ''garden'', ''nature'', ''leaf'']),
     (''ocean'', [''ocean'', ''sea'', ''water'', ''wave'', ''beach'', ''blue'']),
     (''sunset'', [''sunset'', ''dawn'', ''orange'', ''warm'', ''golden'']),
     (''space'', [''space'', ''star'', ''galaxy'', ''cosmic'', ''universe'', ''nebula'']),
     (''forest'', [''forest'', ''wood'', ''jungle'', ''tree'', ''green'']),
     (''city'', [''city'', ''urban'', ''building'', ''street'', ''skyscraper'']),
     (''fire'', [''fire'', ''flame'', ''hot'', ''red'', ''burning'']),
     (''ice'', [''ice'', ''cold'', ''frozen'', ''winter'', ''snow'']),
     (''magic'', [''magic'', ''mystical'', ''fantasy'', ''enchanted'', ''wizard'']),
     (''retro'', [''retro'', ''neon'', ''cyberpunk'', ''80s'', ''synthwave''])]"

text \<open>\<open>sum(1 for keyword in keywords if keyword in prompt_lower)\<close>\<close>

definition keyword_score :: "string list \<Rightarrow> string \<Rightarrow> nat" where
  "keyword_score keywords prompt_lower =
     length (filter (\<lambda>keyword. is_substring keyword prompt_lower) keywords)"

text \<open>The loop that fills \<open>theme_scores\<close>; an assignment to a dictionary key keeps the
  key's place if it is present and appends it otherwise, which is \<open>AList.update\<close>.\<close>

fun score_loop :: "(string \<times> string list) list \<Rightarrow> string \<Rightarrow> (string \<times> nat) list \<Rightarrow> (string \<times> nat) list" where
  "score_loop [] prompt_lower theme_scores = theme_scores"
| "score_loop ((theme, keywords) # rest) prompt_lower theme_scores =
     (let score = keyword_score keywords prompt_lower
      in score_loop rest prompt_lower
           (if score > 0 then AList.update theme score theme_scores else theme_scores))"

text \<open>\<open>max(iterable, key=...)\<close>: ValueError on an empty iterable; the running maximum
  is replaced only by an item whose key is strictly greater.\<close>

fun max_loop :: "('a \<Rightarrow> nat) \<Rightarrow> 'a \<Rightarrow> 'a list \<Rightarrow> 'a" where
  "max_loop key best [] = best"
| "max_loop key best (x # xs) = max_loop key (if key best < key x then x else best) xs"

definition py_max :: "('a \<Rightarrow> nat) \<Rightarrow> 'a list \<Rightarrow> error + 'a" where
  "py_max key xs = (case xs of [] \<Rightarrow> Inl ValueError | x # rest \<Rightarrow> Inr (max_loop key x rest))"

definition detect_theme :: "string \<Rightarrow> string prog" where
  "detect_theme prompt =
     (let prompt_lower = lower prompt;
          theme_scores = score_loop theme_keywords prompt_lower []
      in if theme_scores \<noteq> []
         then bind (lift (py_max snd theme_scores)) (\<lambda>best. ret (fst best))
         else random_choice (map fst color_themes))"


section \<open>\<open>blend_colors\<close>\<close>

definition blend_channel :: "env \<Rightarrow> int \<Rightarrow> int \<Rightarrow> real \<Rightarrow> int" where
  "blend_channel E c1 c2 ratio = py_trunc (fl E (of_int c1 + fl E (of_int (c2 - c1) * ratio)))"

definition hex_rgb :: "string \<Rightarrow> error + int \<times> int \<times> int" where
  "hex_rgb color =
     (case int16 (slice color 1 3) of Inl e \<Rightarrow> Inl e | Inr r \<Rightarrow>
      case int16 (slice color 3 5) of Inl e \<Rightarrow> Inl e | Inr g \<Rightarrow>
      case int16 (slice color 5 7) of Inl e \<Rightarrow> Inl e | Inr b \<Rightarrow> Inr (r, g, b))"

definition blend_colors :: "env \<Rightarrow> string \<Rightarrow> string \<Rightarrow> real \<Rightarrow> error + int \<times> int \<times> int" where
  "blend_colors E color1 color2 ratio =
     (case hex_rgb color1 of Inl e \<Rightarrow> Inl e | Inr (r1, g1, b1) \<Rightarrow>
      case hex_rgb color2 of Inl e \<Rightarrow> Inl e | Inr (r2, g2, b2) \<Rightarrow>
        Inr (blend_channel E r1 r2 ratio, blend_channel E g1 g2 ratio, blend_channel E b1 b2 ratio))"

section \<open>\<open>generate_gradient_background\<close>\<close>

text \<open>\<open>a / b\<close> on two ints and on two floats, and \<open>math.sqrt\<close> of an int.\<close>

definition int_truediv :: "env \<Rightarrow> int \<Rightarrow> int \<Rightarrow> error + real" where
  "int_truediv E a b = (if b = 0 then Inl ZeroDivisionError else Inr (fl E (of_int a / of_int b)))"

definition float_div :: "env \<Rightarrow> real \<Rightarrow> real \<Rightarrow> error + real" where
  "float_div E a b = (if b = 0 then Inl ZeroDivisionError else Inr (fl E (a / b)))"

definition math_sqrt :: "env \<Rightarrow> int \<Rightarrow> error + real" where
  "math_sqrt E n = (if n < 0 then Inl ValueError else Inr (fl E (sqrt (fl E (of_int n)))))"

text \<open>The colour of a gradient pixel: \<open>self.blend_colors(colors[0], colors[1], ratio)\<close>.\<close>

definition gradient_color :: "env \<Rightarrow> string list \<Rightarrow> real \<Rightarrow> error + int \<times> int \<times> int" where
  "gradient_color E colors ratio =
     (case nth_py colors 0 of Inl e \<Rightarrow> Inl e | Inr c0 \<Rightarrow>
      case nth_py colors 1 of Inl e \<Rightarrow> Inl e | Inr c1 \<Rightarrow> blend_colors E c0 c1 ratio)"

definition horizontal_step :: "env \<Rightarrow> int \<Rightarrow> int \<Rightarrow> string list \<Rightarrow> int \<Rightarrow> image \<Rightarrow> error + image" where
  "horizontal_step E width height colors x img =
     (case int_truediv E x width of Inl e \<Rightarrow> Inl e | Inr ratio \<Rightarrow>
      case gradient_color E colors ratio of Inl e \<Rightarrow> Inl e | Inr color \<Rightarrow>
        Inr (draw_line E img (x, 0) (x, height) (ink3 color)))"

definition vertical_step :: "env \<Rightarrow> int \<Rightarrow> int \<Rightarrow> string list \<Rightarrow> int \<Rightarrow> image \<Rightarrow> error + image" where
  "vertical_step E width height colors y img =
     (case int_truediv E y height of Inl e \<Rightarrow> Inl e | Inr ratio \<Rightarrow>
      case gradient_color E colors ratio of Inl e \<Rightarrow> Inl e | Inr color \<Rightarrow>
        Inr (draw_line E img (0, y) (width, y) (ink3 color)))"

definition diagonal_step :: "env \<Rightarrow> int \<Rightarrow> int \<Rightarrow> string list \<Rightarrow> int \<Rightarrow> int \<Rightarrow> image \<Rightarrow> error + image" where
  "diagonal_step E width height colors y x img =
     (case int_truediv E (x + y) (width + height) of Inl e \<Rightarrow> Inl e | Inr ratio \<Rightarrow>
      case gradient_color E colors ratio of Inl e \<Rightarrow> Inl e | Inr color \<Rightarrow>
        Inr (draw_point img (x, y) (ink3 color)))"

definition radial_step :: "env \<Rightarrow> int \<Rightarrow> int \<Rightarrow> real \<Rightarrow> string list \<Rightarrow> int \<Rightarrow> int \<Rightarrow> image \<Rightarrow> error + image" where
  "radial_step E center_x center_y max_distance colors y x img =
     (case math_sqrt E ((x - center_x)\<^sup>2 + (y - center_y)\<^sup>2) of Inl e \<Rightarrow> Inl e | Inr distance \<Rightarrow>
      case float_div E distance max_distance of Inl e \<Rightarrow> Inl e | Inr q \<Rightarrow>
      case gradient_color E colors (min q 1) of Inl e \<Rightarrow> Inl e | Inr color \<Rightarrow>
        Inr (draw_point img (x, y) (ink3 color)))"

definition generate_gradient_background :: "env \<Rightarrow> int \<Rightarrow> int \<Rightarrow> string list \<Rightarrow> image prog" where
  "generate_gradient_background E width height colors =
     bind (lift (Image_new RGB width height (0, 0, 0, 255))) (\<lambda>img.
     bind (random_choice [''horizontal'', ''vertical'', ''diagonal'', ''radial'']) (\<lambda>gradient_type.
       if gradient_type = ''horizontal'' then
         for_each (py_range width) (\<lambda>x img. lift (horizontal_step E width height colors x img)) img
       else if gradient_type = ''vertical'' then
         for_each (py_range height) (\<lambda>y img. lift (vertical_step E width height colors y img)) img
       else if gradient_type = ''diagonal'' then
         for_each (py_range height) (\<lambda>y img.
           for_each (py_range width) (\<lambda>x img.
             lift (diagonal_step E width height colors y x img)) img) img
       else if gradient_type = ''radial'' then
         (let center_x = width div 2; center_y = height div 2
          in bind (lift (math_sqrt E (center_x\<^sup>2 + center_y\<^sup>2))) (\<lambda>max_distance.
             for_each (py_range height) (\<lambda>y img.
               for_each (py_range width) (\<lambda>x img.
                 lift (radial_step E center_x center_y max_distance colors y x img)) img) img))
       else ret img))"

section \<open>\<open>add_geometric_patterns\<close>\<close>

text \<open>One pass of the loop body: the overlay with at most one shape drawn on it.\<close>

definition shape_overlay :: "env \<Rightarrow> string \<Rightarrow> int \<Rightarrow> int \<Rightarrow> string \<Rightarrow> int \<Rightarrow> image \<Rightarrow> image prog" where
  "shape_overlay E pattern_type width height color alpha overlay =
     (if pattern_type = ''circles'' then
        bind (random_randint 0 width) (\<lambda>x.
        bind (random_randint 0 height) (\<lambda>y.
        bind (random_randint 20 100) (\<lambda>radius.
        bind (lift (hex_rgb color)) (\<lambda>(r, g, b).
          lift (draw_ellipse E overlay (x - radius, y - radius, x + radius, y + radius)
                  (ink4 (r, g, b, alpha)))))))
      else if pattern_type = ''rectangles'' then
        bind (random_randint 0 (width div 2)) (\<lambda>x1.
        bind (random_randint 0 (height div 2)) (\<lambda>y1.
        bind (random_randint x1 width) (\<lambda>x2.
        bind (random_randint y1 height) (\<lambda>y2.
        bind (lift (hex_rgb color)) (\<lambda>(r, g, b).
          lift (draw_rectangle overlay (x1, y1, x2, y2) (ink4 (r, g, b, alpha))))))))
      else ret overlay)"

definition composite_onto :: "image \<Rightarrow> image \<Rightarrow> error + image" where
  "composite_onto img overlay =
     (case alpha_composite (convert img RGBA) overlay of
        Inl e \<Rightarrow> Inl e
      | Inr im \<Rightarrow> Inr (convert im RGB))"

definition add_shape :: "env \<Rightarrow> string \<Rightarrow> int \<Rightarrow> int \<Rightarrow> string list \<Rightarrow> image \<Rightarrow> image prog" where
  "add_shape E pattern_type width height colors img =
     bind (random_choice colors) (\<lambda>color.
     bind (random_randint 50 150) (\<lambda>alpha.
     bind (lift (Image_new RGBA width height (0, 0, 0, 0))) (\<lambda>overlay.
     bind (shape_overlay E pattern_type width height color alpha overlay) (\<lambda>overlay.
       lift (composite_onto img overlay)))))"

definition add_geometric_patterns :: "env \<Rightarrow> image \<Rightarrow> string list \<Rightarrow> image prog" where
  "add_geometric_patterns E img colors =
     (let width = im_width img; height = im_height img
      in bind (random_choice [''circles'', ''rectangles'', ''triangles'', ''lines'']) (\<lambda>pattern_type.
         bind (random_randint 5 15) (\<lambda>num_shapes.
           for_each (py_range num_shapes)
             (\<lambda>_ img. add_shape E pattern_type width height colors img) img)))"

section \<open>\<open>add_text_overlay\<close>\<close>

text \<open>The font search: the first size of 60, 48, 36, 24 at which \<open>arial.ttf\<close> loads,
  and the built-in font if none does.\<close>

fun load_font :: "env \<Rightarrow> int list \<Rightarrow> font" where
  "load_font E [] = DefaultFont"
| "load_font E (font_size # sizes) =
     (if truetype_ok E ''arial.ttf'' font_size then TrueType ''arial.ttf'' font_size
      else load_font E sizes)"

definition display_text :: "string \<Rightarrow> string" where
  "display_text prompt = (let words = take 3 (split_ws prompt) in upper (join_sp words))"

text \<open>The part of \<open>add_text_overlay\<close> after \<open>display_text\<close> is computed: measure the
  caption, choose one of the four anchors, draw the shadow and then the caption.\<close>

definition draw_caption :: "env \<Rightarrow> image \<Rightarrow> font \<Rightarrow> string \<Rightarrow> image prog" where
  "draw_caption E img font caption =
     (let width = im_width img; height = im_height img;
          (x0, y0, x1, y1) = textbbox E font caption;
          text_width = x1 - x0;
          text_height = y1 - y0;
          text_positions =
            [(width div 2 - text_width div 2, 50),
             (width div 2 - text_width div 2, height - text_height - 50),
             (50, height div 2 - text_height div 2),
             (width - text_width - 50, height div 2 - text_height div 2)]
      in bind (random_choice text_positions) (\<lambda>(x, y).
           let shadow_offset = 3;
               img = draw_text E img (x + shadow_offset, y + shadow_offset) caption (0, 0, 0, 255) font;
               img = draw_text E img (x, y) caption (255, 255, 255, 255) font
           in ret img))"

definition add_text_overlay :: "env \<Rightarrow> image \<Rightarrow> string \<Rightarrow> image prog" where
  "add_text_overlay E img prompt =
     (let font = load_font E [60, 48, 36, 24]
      in draw_caption E img font (display_text prompt))"

section \<open>\<open>apply_artistic_effects\<close>\<close>

definition apply_artistic_effects :: "env \<Rightarrow> image \<Rightarrow> image prog" where
  "apply_artistic_effects E img =
     bind (random_choice [''blur'', ''sharpen'', ''emboss'', ''edge_enhance'', ''smooth'']) (\<lambda>chosen_effect.
       ret (if chosen_effect = ''blur'' then filter_image E img (GaussianBlur 1)
            else if chosen_effect = ''sharpen'' then filter_image E img SHARPEN
            else if chosen_effect = ''emboss'' then filter_image E img EMBOSS
            else if chosen_effect = ''edge_enhance'' then filter_image E img EDGE_ENHANCE
            else if chosen_effect = ''smooth'' then filter_image E img SMOOTH
            else img))"

section \<open>\<open>create_abstract_art\<close>\<close>

definition corner_box :: "int \<Rightarrow> int \<Rightarrow> (int \<times> int \<times> int \<times> int) prog" where
  "corner_box width height =
     bind (random_randint 0 (width div 2)) (\<lambda>x1.
     bind (random_randint 0 (height div 2)) (\<lambda>y1.
     bind (random_randint x1 width) (\<lambda>x2.
     bind (random_randint y1 height) (\<lambda>y2. ret (x1, y1, x2, y2)))))"

definition random_point :: "int \<Rightarrow> int \<Rightarrow> (int \<times> int) list \<Rightarrow> (int \<times> int) list prog" where
  "random_point width height points =
     bind (random_randint 0 width) (\<lambda>x.
     bind (random_randint 0 height) (\<lambda>y. ret (points @ [(x, y)])))"

definition abstract_shape :: "env \<Rightarrow> int \<Rightarrow> int \<Rightarrow> string list \<Rightarrow> image \<Rightarrow> image prog" where
  "abstract_shape E width height colors img =
     bind (random_choice [''ellipse'', ''rectangle'', ''polygon'']) (\<lambda>shape_type.
     bind (random_choice colors) (\<lambda>color.
       if shape_type = ''ellipse'' then
         bind (corner_box width height) (\<lambda>box.
         bind (lift (getrgb E color)) (\<lambda>c. lift (draw_ellipse E img box (ink3 c))))
       else if shape_type = ''rectangle'' then
         bind (corner_box width height) (\<lambda>box.
         bind (lift (getrgb E color)) (\<lambda>c. lift (draw_rectangle img box (ink3 c))))
       else if shape_type = ''polygon'' then
         bind (random_randint 3 6) (\<lambda>num_points.
         bind (for_each (py_range num_points) (\<lambda>_ points. random_point width height points) []) (\<lambda>points.
         bind (lift (getrgb E color)) (\<lambda>c. ret (draw_polygon E img points (ink3 c)))))
       else ret img))"

definition create_abstract_art :: "env \<Rightarrow> int \<Rightarrow> int \<Rightarrow> string list \<Rightarrow> image prog" where
  "create_abstract_art E width height colors =
     bind (lift (Image_new RGB width height (255, 255, 255, 255))) (\<lambda>img.
     bind (random_randint 10 25) (\<lambda>num_shapes.
       for_each (py_range num_shapes) (\<lambda>_ img. abstract_shape E width height colors img) img))"


section \<open>\<open>generate_image\<close> and \<open>batch_generate\<close>\<close>

text \<open>\<open>self.color_themes[theme]\<close>\<close>

definition theme_colors :: "string \<Rightarrow> error + string list" where
  "theme_colors theme = (case map_of color_themes theme of None \<Rightarrow> Inl KeyError | Some colors \<Rightarrow> Inr colors)"

text \<open>The chain \<open>if style == 'gradient' ... elif ... elif ...\<close>: with a style that is
  none of the three, the variable \<open>image\<close> stays unbound and its first use is an
  UnboundLocalError.\<close>

definition base_image :: "env \<Rightarrow> string \<Rightarrow> int \<Rightarrow> int \<Rightarrow> string list \<Rightarrow> image prog" where
  "base_image E style width height colors =
     (if style = ''gradient'' then generate_gradient_background E width height (slice colors 0 2)
      else if style = ''abstract'' then create_abstract_art E width height colors
      else if style = ''geometric'' then
        bind (lift (nth_py colors 0)) (\<lambda>bg_color.
        bind (lift (hex_rgb bg_color)) (\<lambda>c.
        bind (lift (Image_new RGB width height (ink3 c))) (\<lambda>img.
          add_geometric_patterns E img (drop 1 colors))))
      else raise UnboundLocalError)"

definition render :: "env \<Rightarrow> string \<Rightarrow> string \<Rightarrow> int \<Rightarrow> int \<Rightarrow> string list \<Rightarrow> image prog" where
  "render E prompt style width height colors =
     bind (base_image E style width height colors) (\<lambda>img.
     bind (add_text_overlay E img prompt) (\<lambda>img.
       apply_artistic_effects E img))"

text \<open>The body of the \<open>try\<close> block of \<open>generate_image\<close>, and its \<open>except\<close> handler.\<close>

definition generate_image_try :: "env \<Rightarrow> string \<Rightarrow> string \<Rightarrow> string \<Rightarrow> int \<Rightarrow> int \<Rightarrow> string list \<Rightarrow> string option prog" where
  "generate_image_try E prompt theme style width height colors =
     bind (render E prompt style width height colors) (\<lambda>img.
     bind (timestamp_now E) (\<lambda>timestamp.
       let filename = ''local_generated_'' @ style @ ''_'' @ timestamp @ ''.png'';
           filepath = path_join (output_dir E) filename
       in bind (save E img filepath) (\<lambda>_.
          bind (print MsgSuccess) (\<lambda>_.
          bind (print (MsgSaved filepath)) (\<lambda>_.
          bind (print (MsgThemeStyle theme style)) (\<lambda>_.
            ret (Some filepath)))))))"

definition generate_image_except :: "error \<Rightarrow> string option prog" where
  "generate_image_except e = bind (print (MsgError e)) (\<lambda>_. ret None)"

definition generate_image :: "env \<Rightarrow> string \<Rightarrow> int \<Rightarrow> int \<Rightarrow> string \<Rightarrow> string option prog" where
  "generate_image E prompt width height style =
     (if prompt = [] \<or> strip prompt = [] then
        bind (print MsgEmptyPrompt) (\<lambda>_. ret None)
      else
        (let prompt = strip prompt
         in bind (print (MsgGenerating prompt)) (\<lambda>_.
            bind (detect_theme prompt) (\<lambda>theme.
            bind (lift (theme_colors theme)) (\<lambda>colors.
            bind (print (MsgTheme theme)) (\<lambda>_.
            bind (if style = ''auto'' then random_choice [''gradient'', ''abstract'', ''geometric'']
                  else ret style) (\<lambda>style.
            bind (print (MsgStyle style)) (\<lambda>_.
              catch (generate_image_try E prompt theme style width height colors)
                generate_image_except))))))))"

definition batch_step :: "env \<Rightarrow> int \<Rightarrow> int \<Rightarrow> string \<Rightarrow> nat \<Rightarrow> nat \<times> string \<Rightarrow> string option list \<Rightarrow> string option list prog" where
  "batch_step E width height style n ip results =
     (case ip of (i, prompt) \<Rightarrow>
        bind (print (MsgProcessing i n (slice prompt 0 50))) (\<lambda>_.
        bind (generate_image E prompt width height style) (\<lambda>result.
          ret (results @ [result]))))"

definition batch_generate :: "env \<Rightarrow> string list \<Rightarrow> int \<Rightarrow> int \<Rightarrow> string \<Rightarrow> string option list prog" where
  "batch_generate E prompts width height style =
     (let total = length prompts
      in bind (print (MsgBatchStart total)) (\<lambda>_.
         bind (for_each (zip [1..<Suc total] prompts) (batch_step E width height style total) []) (\<lambda>results.
           let successful = length (filter (\<lambda>r. r \<noteq> None) results)
           in bind (print MsgBatchComplete) (\<lambda>_.
              bind (print (MsgSuccessful successful total)) (\<lambda>_.
                ret results)))))"


section \<open>Notions of the specification and fixtures\<close>

text \<open>\<open>occurs_in k s\<close>: the string \<open>k\<close> occurs in \<open>s\<close> as a contiguous substring.
  \<open>keyword_count ks prompt\<close>: how many keywords of the list \<open>ks\<close> occur in the lowercased
  prompt.\<close>

definition occurs_in :: "string \<Rightarrow> string \<Rightarrow> bool" where
  "occurs_in k s = (\<exists>u v. s = u @ k @ v)"

definition keyword_count :: "string list \<Rightarrow> string \<Rightarrow> nat" where
  "keyword_count ks prompt = card {k \<in> set ks. occurs_in k (lower prompt)}"

text \<open>A blank prompt: empty, or whitespace only.\<close>

definition blank :: "string \<Rightarrow> bool" where
  "blank s = list_all is_space s"

text \<open>\<open>weave seps ws\<close>: the text made of the separators \<open>seps\<close> and the words \<open>ws\<close> in
  turn, starting and ending with a separator.\<close>

fun weave :: "string list \<Rightarrow> string list \<Rightarrow> string" where
  "weave (s # ss) (w # ws) = s @ w @ weave ss ws"
| "weave (s # ss) [] = s"
| "weave [] ws = []"

text \<open>\<open>selects xs v w\<close>: in the world \<open>w\<close> the next \<open>random.choice(xs)\<close> returns \<open>v\<close>.\<close>

definition selects :: "'a list \<Rightarrow> 'a \<Rightarrow> world \<Rightarrow> bool" where
  "selects xs v w = (fst (random_choice xs w) = Inr v)"

text \<open>
  The batch, said in words: the world in which the loop reaches the prompt of index
  \<open>i\<close> (after the start message and the runs of all earlier prompts), the world in
  which the pipeline is started on it (after the progress message), and its result.
\<close>

fun batch_world :: "env \<Rightarrow> string list \<Rightarrow> int \<Rightarrow> int \<Rightarrow> string \<Rightarrow> world \<Rightarrow> nat \<Rightarrow> world" where
  "batch_world E prompts width height style w 0 =
     w\<lparr>stdout := stdout w @ [MsgBatchStart (length prompts)]\<rparr>"
| "batch_world E prompts width height style w (Suc i) =
     snd (generate_image E (prompts ! i) width height style
            ((batch_world E prompts width height style w i)
               \<lparr>stdout := stdout (batch_world E prompts width height style w i)
                    @ [MsgProcessing (Suc i) (length prompts) (take 50 (prompts ! i))]\<rparr>))"

definition batch_result :: "env \<Rightarrow> string list \<Rightarrow> int \<Rightarrow> int \<Rightarrow> string \<Rightarrow> world \<Rightarrow> nat \<Rightarrow> error + string option" where
  "batch_result E prompts width height style w i =
     fst (generate_image E (prompts ! i) width height style
            ((batch_world E prompts width height style w i)
               \<lparr>stdout := stdout (batch_world E prompts width height style w i)
                    @ [MsgProcessing (Suc i) (length prompts) (take 50 (prompts ! i))]\<rparr>))"

text \<open>\<open>between a b v\<close>: the value lies between \<open>a\<close> and \<open>b\<close>, whichever is the smaller.\<close>

definition between :: "int \<Rightarrow> int \<Rightarrow> int \<Rightarrow> bool" where
  "between a b v = (min a b \<le> v \<and> v \<le> max a b)"

text \<open>\<open>sized w h im\<close>: the image \<open>im\<close> is \<open>w\<close> pixels wide and \<open>h\<close> pixels high
  (\<open>im.size == (w, h)\<close>).\<close>

definition sized :: "int \<Rightarrow> int \<Rightarrow> image \<Rightarrow> bool" where
  "sized w h im = (im_width im = w \<and> im_height im = h)"

text \<open>A world at the start of a run with a given tape, and one concrete environment
  (exact arithmetic, bounding boxes for shapes, no fonts installed, identity filters,
  every file writable) on which the theorems are instantiated.\<close>

definition start_world :: "(nat \<Rightarrow> nat) \<Rightarrow> world" where
  "start_world tape = \<lparr>rng = tape, rng_pos = 0, clock_pos = 0, stdout = [], files = Map.empty\<rparr>"

definition plain_env :: env where
  "plain_env =
     \<lparr>fl = (\<lambda>x. x),
      ellipse_px = (\<lambda>(x0, y0, x1, y1) x y. x0 \<le> x \<and> x \<le> x1 \<and> y0 \<le> y \<and> y \<le> y1),
      polygon_px = (\<lambda>points x y. (x, y) \<in> set points),
      line_px = (\<lambda>p q x y. (x, y) = p \<or> (x, y) = q),
      truetype_ok = (\<lambda>name font_size. False),
      textbbox = (\<lambda>f txt. (0, 0, 6 * int (length txt), 11)),
      text_px = (\<lambda>f pos txt ink im. im_px im),
      filter_px = (\<lambda>f im. im_px im),
      other_color = (\<lambda>color. None),
      now = (\<lambda>k. ''20250704_120000''),
      output_dir = ''generated_images'',
      save_ok = (\<lambda>filepath. True)\<rparr>"

section \<open>Lemmas on strings and on \<open>detect_theme\<close>\<close>

lemma is_substring_iff: "is_substring k s \<longleftrightarrow> (\<exists>u v. s = u @ k @ v)"
proof (induction s)
  case Nil
  then show ?case by auto
next
  case (Cons c cs)
  show ?case
  proof
    assume "is_substring k (c # cs)"
    then consider "prefix k (c # cs)" | "is_substring k cs" by auto
    then show "\<exists>u v. c # cs = u @ k @ v"
    proof cases
      case 1
      then obtain v where "c # cs = k @ v" by (auto simp: prefix_def)
      then have "c # cs = [] @ k @ v" by simp
      then show ?thesis by blast
    next
      case 2
      then obtain u v where "cs = u @ k @ v" using Cons.IH by blast
      then have "c # cs = (c # u) @ k @ v" by simp
      then show ?thesis by blast
    qed
  next
    assume "\<exists>u v. c # cs = u @ k @ v"
    then obtain u v where e: "c # cs = u @ k @ v" by blast
    show "is_substring k (c # cs)"
    proof (cases u)
      case Nil
      then have "prefix k (c # cs)" using e by (simp add: prefix_def)
      then show ?thesis by simp
    next
      case (Cons d u')
      then have "cs = u' @ k @ v" using e by simp
      then have "is_substring k cs" using Cons.IH by blast
      then show ?thesis by simp
    qed
  qed
qed

lemma update_fresh: "k \<notin> fst ` set al \<Longrightarrow> AList.update k v al = al @ [(k, v)]"
  by (induction al) auto

lemma score_loop_eq:
  "distinct (map fst cat) \<Longrightarrow> fst ` set acc \<inter> fst ` set cat = {} \<Longrightarrow>
   score_loop cat pl acc =
     acc @ filter (\<lambda>p. 0 < snd p) (map (\<lambda>(t, ks). (t, keyword_score ks pl)) cat)"
proof (induction cat arbitrary: acc)
  case Nil
  then show ?case by simp
next
  case (Cons a rest)
  obtain theme kws where a: "a = (theme, kws)" by (cases a)
  have fresh: "theme \<notin> fst ` set acc" using Cons.prems a by auto
  have d: "distinct (map fst rest)" using Cons.prems by simp
  show ?case
  proof (cases "0 < keyword_score kws pl")
    case True
    have i: "fst ` set (acc @ [(theme, keyword_score kws pl)]) \<inter> fst ` set rest = {}"
      using Cons.prems a by auto
    show ?thesis using True Cons.IH [OF d i] fresh a
      by (simp add: update_fresh Let_def)
  next
    case False
    have i: "fst ` set acc \<inter> fst ` set rest = {}" using Cons.prems by auto
    show ?thesis using False Cons.IH [OF d i] a by (simp add: Let_def)
  qed
qed

lemma max_loop_first_max:
  "\<exists>pre post. b # xs = pre @ max_loop key b xs # post \<and>
      (\<forall>x \<in> set pre. key x < key (max_loop key b xs)) \<and>
      (\<forall>x \<in> set post. key x \<le> key (max_loop key b xs))"
proof (induction xs arbitrary: b)
  case Nil
  have "[b] = [] @ b # []" by simp
  then show ?case by force
next
  case (Cons x xs)
  show ?case
  proof (cases "key b < key x")
    case True
    let ?m = "max_loop key x xs"
    obtain pre post where d: "x # xs = pre @ ?m # post"
      "\<forall>y \<in> set pre. key y < key ?m" "\<forall>y \<in> set post. key y \<le> key ?m"
      using Cons.IH [of x] by blast
    have kx: "key x \<le> key ?m" using d(1,2) by (cases pre) auto
    have m: "max_loop key b (x # xs) = ?m" using True by simp
    have "b # x # xs = (b # pre) @ ?m # post" using d(1) by simp
    moreover have "\<forall>y \<in> set (b # pre). key y < key ?m" using d(2) kx True by auto
    ultimately show ?thesis unfolding m using d(3) by blast
  next
    case False
    let ?m = "max_loop key b xs"
    obtain pre post where d: "b # xs = pre @ ?m # post"
      "\<forall>y \<in> set pre. key y < key ?m" "\<forall>y \<in> set post. key y \<le> key ?m"
      using Cons.IH [of b] by blast
    have m: "max_loop key b (x # xs) = ?m" using False by simp
    show ?thesis
    proof (cases pre)
      case Nil
      then have "b = ?m" "post = xs" using d(1) by auto
      then have "b # x # xs = [] @ ?m # (x # xs)" "\<forall>y \<in> set (x # xs). key y \<le> key ?m"
        "\<forall>y \<in> set []. key y < key ?m"
        using d(3) False by auto
      then show ?thesis unfolding m by blast
    next
      case (Cons p pre')
      then have p: "p = b" "xs = pre' @ ?m # post" using d(1) by auto
      have "key b < key ?m" using d(2) Cons p by simp
      then have "\<forall>y \<in> set (b # x # pre'). key y < key ?m" using d(2) Cons False by auto
      moreover have "b # x # xs = (b # x # pre') @ ?m # post" using p by simp
      ultimately show ?thesis unfolding m using d(3) by blast
    qed
  qed
qed


lemma keyword_score_count:
  "distinct ks \<Longrightarrow> keyword_score ks (lower prompt) = keyword_count ks prompt"
proof -
  assume d: "distinct ks"
  have "{k \<in> set ks. occurs_in k (lower prompt)} = set (filter (\<lambda>k. is_substring k (lower prompt)) ks)"
    by (auto simp: occurs_in_def is_substring_iff)
  moreover have "distinct (filter (\<lambda>k. is_substring k (lower prompt)) ks)" using d by simp
  ultimately show ?thesis
    unfolding keyword_score_def keyword_count_def by (metis distinct_card)
qed

lemma filter_eq_append_ConsD:
  "filter P xs = ys @ z # zs \<Longrightarrow>
   \<exists>us vs. xs = us @ z # vs \<and> filter P us = ys \<and> filter P vs = zs \<and> P z"
proof (induction ys arbitrary: xs)
  case Nil
  then obtain us vs where a: "xs = us @ z # vs" "\<forall>u \<in> set us. \<not> P u" "P z" "zs = filter P vs"
    unfolding append_Nil filter_eq_Cons_iff by blast
  have "filter P us = []" using a(2) by (simp add: filter_empty_conv)
  then show ?case using a by blast
next
  case (Cons y ys)
  then obtain us vs where a: "xs = us @ y # vs" "\<forall>u \<in> set us. \<not> P u" "P y"
    "ys @ z # zs = filter P vs"
    unfolding append_Cons filter_eq_Cons_iff by blast
  obtain us' vs' where b: "vs = us' @ z # vs'" "filter P us' = ys" "filter P vs' = zs" "P z"
    using Cons.IH [of vs] a(4) by auto
  have "xs = (us @ y # us') @ z # vs'" using a(1) b(1) by simp
  moreover have "filter P (us @ y # us') = y # ys" using a(2,3) b(2) by simp
  ultimately show ?case using b(3,4) by blast
qed

lemma catalog_keys_distinct: "distinct (map fst theme_keywords)"
  by (simp add: theme_keywords_def)

lemma catalog_keywords_distinct: "(t, ks) \<in> set theme_keywords \<Longrightarrow> distinct ks"
  by (auto simp: theme_keywords_def)

lemma theme_scores_eq:
  "score_loop theme_keywords pl [] =
     filter (\<lambda>p. 0 < snd p) (map (\<lambda>(t, ks). (t, keyword_score ks pl)) theme_keywords)"
  using score_loop_eq [OF catalog_keys_distinct, of "[]" pl] by simp

lemma detect_theme_scored:
  assumes ne: "score_loop theme_keywords (lower prompt) [] \<noteq> []"
  shows "\<exists>pre T ks post. theme_keywords = pre @ (T, ks) # post \<and>
           detect_theme prompt w = (Inr T, w) \<and>
           (\<forall>(t, ks') \<in> set pre. keyword_count ks' prompt < keyword_count ks prompt) \<and>
           (\<forall>(t, ks') \<in> set post. keyword_count ks' prompt \<le> keyword_count ks prompt)"
proof -
  let ?pl = "lower prompt"
  define f where "f = (\<lambda>(t :: string, ks). (t, keyword_score ks ?pl))"
  define P where "P = (\<lambda>p :: string \<times> nat. 0 < snd p)"
  have f_app: "f (t, ks) = (t, keyword_score ks ?pl)" for t ks by (simp add: f_def)
  let ?ts = "score_loop theme_keywords ?pl []"
  obtain b xs where bx: "?ts = b # xs" using ne by (cases ?ts) auto
  define m where "m = max_loop snd b xs"
  have dt: "detect_theme prompt w = (Inr (fst m), w)"
    using bx by (simp add: m_def detect_theme_def Let_def py_max_def bind_def lift_def ret_def)
  obtain pre post where d: "b # xs = pre @ m # post"
    "\<forall>x \<in> set pre. snd x < snd m" "\<forall>x \<in> set post. snd x \<le> snd m"
    using max_loop_first_max [of b xs snd] unfolding m_def by blast
  have fe: "filter P (map f theme_keywords) = pre @ m # post"
    using d(1) bx theme_scores_eq [of ?pl] by (simp add: f_def P_def)
  obtain us vs where uv: "map f theme_keywords = us @ m # vs"
    "filter P us = pre" "filter P vs = post" "P m"
    using filter_eq_append_ConsD [OF fe] by blast
  obtain cpre cr where c1: "theme_keywords = cpre @ cr" "map f cpre = us" "map f cr = m # vs"
    using map_eq_append_conv [THEN iffD1, OF uv(1)] by (elim exE conjE) simp
  obtain e cpost where c2: "cr = e # cpost" "f e = m" "map f cpost = vs"
    using map_eq_Cons_conv [THEN iffD1, OF c1(3)] by (elim exE conjE) simp
  have c: "theme_keywords = cpre @ e # cpost" using c1(1) c2(1) by simp
  obtain T ks where e: "e = (T, ks)" by (cases e)
  have mem: "x \<in> set theme_keywords" if "x \<in> set cpre \<or> x = e \<or> x \<in> set cpost" for x
    using that by (subst c) auto
  have kc: "keyword_score ks' ?pl = keyword_count ks' prompt" if "(t, ks') \<in> set theme_keywords" for t ks'
    using catalog_keywords_distinct [OF that] by (rule keyword_score_count)
  have me: "m = (T, keyword_score ks ?pl)" using c2(2) e f_app by simp
  have "(T, ks) \<in> set theme_keywords" using mem e by simp
  then have sm: "snd m = keyword_count ks prompt" "fst m = T"
    using me kc [of T ks] by simp_all
  have mpos: "0 < snd m" using uv(4) by (simp add: P_def)
  have pre_lt: "keyword_count ks' prompt < keyword_count ks prompt" if "(t, ks') \<in> set cpre" for t ks'
  proof -
    have "f (t, ks') \<in> f ` set cpre" using that by (rule imageI)
    then have a: "(t, keyword_score ks' ?pl) \<in> set us"
      unfolding c1(2) [symmetric] set_map f_app .
    have "keyword_score ks' ?pl < snd m"
    proof (cases "0 < keyword_score ks' ?pl")
      case True
      then have "(t, keyword_score ks' ?pl) \<in> set pre"
        using a unfolding uv(2) [symmetric] by (simp add: P_def)
      then show ?thesis using d(2) by force
    next
      case False
      then show ?thesis using mpos by simp
    qed
    moreover have "(t, ks') \<in> set theme_keywords" using that mem by simp
    ultimately show ?thesis using kc sm(1) by simp
  qed
  have post_le: "keyword_count ks' prompt \<le> keyword_count ks prompt" if "(t, ks') \<in> set cpost" for t ks'
  proof -
    have "f (t, ks') \<in> f ` set cpost" using that by (rule imageI)
    then have a: "(t, keyword_score ks' ?pl) \<in> set vs"
      unfolding c2(3) [symmetric] set_map f_app .
    have "keyword_score ks' ?pl \<le> snd m"
    proof (cases "0 < keyword_score ks' ?pl")
      case True
      then have "(t, keyword_score ks' ?pl) \<in> set post"
        using a unfolding uv(3) [symmetric] by (simp add: P_def)
      then show ?thesis using d(3) by force
    next
      case False
      then show ?thesis by simp
    qed
    moreover have "(t, ks') \<in> set theme_keywords" using that mem by simp
    ultimately show ?thesis using kc sm(1) by simp
  qed
  have 1: "theme_keywords = cpre @ (T, ks) # cpost" using c e by simp
  have 2: "detect_theme prompt w = (Inr T, w)" using dt sm(2) by simp
  have 3: "\<forall>(t, ks') \<in> set cpre. keyword_count ks' prompt < keyword_count ks prompt"
    using pre_lt by auto
  have 4: "\<forall>(t, ks') \<in> set cpost. keyword_count ks' prompt \<le> keyword_count ks prompt"
    using post_le by auto
  from 1 2 3 4 have "theme_keywords = cpre @ (T, ks) # cpost \<and>
           detect_theme prompt w = (Inr T, w) \<and>
           (\<forall>(t, ks') \<in> set cpre. keyword_count ks' prompt < keyword_count ks prompt) \<and>
           (\<forall>(t, ks') \<in> set cpost. keyword_count ks' prompt \<le> keyword_count ks prompt)"
    by (intro conjI)
  then show ?thesis by - (rule exI)+
qed


lemma occurs_in_sublist: "occurs_in k s = sublist k s"
  by (simp add: occurs_in_def sublist_def)

lemma sublist_spaces:
  assumes "sublist k (sp @ t)" "\<forall>c \<in> set sp. P c" "\<forall>c \<in> set k. \<not> P c"
  shows "sublist k t"
proof -
  have no: "k1 = []" if "suffix k1 sp" "set k1 \<subseteq> set k" for k1
  proof (rule ccontr)
    assume "k1 \<noteq> []"
    then obtain c where c: "c \<in> set k1" by (cases k1) auto
    have "c \<in> set sp" using c that(1) by (meson set_mono_suffix subsetD)
    moreover have "c \<in> set k" using c that(2) by auto
    ultimately show False using assms(2,3) by blast
  qed
  from assms(1) consider "sublist k sp" | "sublist k t"
    | k1 k2 where "k = k1 @ k2" "suffix k1 sp" "prefix k2 t"
    unfolding sublist_append by blast
  then show ?thesis
  proof cases
    case 1
    then obtain ps ss where e: "sp = ps @ k @ ss" by (auto simp: sublist_def)
    have "suffix k (ps @ k)" by (simp add: suffix_def)
    have "set k \<subseteq> set sp" using e by auto
    then have "k = []" using assms(2,3) by (cases k) auto
    then show ?thesis by simp
  next
    case 2
    then show ?thesis .
  next
    case (3 k1 k2)
    then have "k1 = []" using no [of k1] by auto
    then show ?thesis using 3 by auto
  qed
qed

lemma sublist_word:
  assumes "sublist k (w @ r)" "k \<noteq> []" "\<forall>c \<in> set k. \<not> P c" "r = [] \<or> P (hd r)"
  shows "sublist k w \<or> sublist k r"
proof -
  from assms(1) consider "sublist k w" | "sublist k r"
    | k1 k2 where "k = k1 @ k2" "suffix k1 w" "prefix k2 r"
    unfolding sublist_append by blast
  then show ?thesis
  proof cases
    case (3 k1 k2)
    show ?thesis
    proof (cases k2)
      case Nil
      then show ?thesis using 3 by auto
    next
      case (Cons c k2')
      then obtain r' where "r = c # r'" using 3(3) by (cases r) (auto simp: prefix_def)
      then have "P c" using assms(4) by simp
      moreover have "c \<in> set k" using 3(1) Cons by simp
      ultimately show ?thesis using assms(3) by blast
    qed
  qed auto
qed

lemma split_ws_Nil: "dropWhile is_space s = [] \<Longrightarrow> split_ws s = []"
  by (subst split_ws.simps) (simp del: dropWhile_eq_Nil_conv)

lemma split_ws_Cons:
  "dropWhile is_space s = c # cs \<Longrightarrow>
   split_ws s = takeWhile (\<lambda>d. \<not> is_space d) (c # cs) # split_ws (dropWhile (\<lambda>d. \<not> is_space d) (c # cs))"
  by (subst split_ws.simps) (simp del: dropWhile_eq_Nil_conv)

lemma sublist_in_word:
  "sublist k s \<Longrightarrow> k \<noteq> [] \<Longrightarrow> \<forall>c \<in> set k. \<not> is_space c \<Longrightarrow>
   \<exists>w \<in> set (split_ws s). sublist k w"
proof (induction s rule: split_ws.induct)
  case (1 s)
  let ?t = "dropWhile is_space s"
  have s: "s = takeWhile is_space s @ ?t" by simp
  have "\<forall>c \<in> set (takeWhile is_space s). is_space c" by (auto dest: set_takeWhileD)
  then have kt: "sublist k ?t"
    using sublist_spaces [of k "takeWhile is_space s" ?t is_space] 1(2,4) s by simp
  show ?case
  proof (cases ?t)
    case Nil
    from kt have "sublist k []" unfolding Nil .
    then show ?thesis using 1(3) by simp
  next
    case (Cons c cs)
    let ?w = "takeWhile (\<lambda>d. \<not> is_space d) (c # cs)"
    let ?r = "dropWhile (\<lambda>d. \<not> is_space d) (c # cs)"
    have "sublist k (?w @ ?r)" using kt Cons by simp
    moreover have "?r = [] \<or> is_space (hd ?r)" using hd_dropWhile [of "\<lambda>d. \<not> is_space d" "c # cs"] by blast
    ultimately have "sublist k ?w \<or> sublist k ?r"
      using sublist_word [of k ?w ?r is_space] 1(3,4) by blast
    then show ?thesis
    proof
      assume "sublist k ?w"
      then show ?thesis using split_ws_Cons [OF Cons] by simp
    next
      assume "sublist k ?r"
      then obtain w where "w \<in> set (split_ws ?r)" "sublist k w"
        using 1(1) [OF Cons] 1(3,4) by blast
      then show ?thesis using split_ws_Cons [OF Cons] by auto
    qed
  qed
qed

lemma word_sublist: "w \<in> set (split_ws s) \<Longrightarrow> sublist w s"
proof (induction s rule: split_ws.induct)
  case (1 s)
  let ?t = "dropWhile is_space s"
  show ?case
  proof (cases ?t)
    case Nil
    then show ?thesis using 1(2) split_ws_Nil by simp
  next
    case (Cons c cs)
    let ?w = "takeWhile (\<lambda>d. \<not> is_space d) (c # cs)"
    let ?r = "dropWhile (\<lambda>d. \<not> is_space d) (c # cs)"
    have ts: "sublist ?t s" by simp
    from 1(2) have "w = ?w \<or> w \<in> set (split_ws ?r)" using split_ws_Cons [OF Cons] by simp
    then show ?thesis
    proof
      assume "w = ?w"
      then have "sublist w (c # cs)" using sublist_takeWhile [of "\<lambda>d. \<not> is_space d" "c # cs"] by (simp del: takeWhile.simps)
      then show ?thesis using ts Cons by (metis sublist_order.order_trans)
    next
      assume "w \<in> set (split_ws ?r)"
      then have "sublist w ?r" using 1(1) [OF Cons] by simp
      moreover have "sublist ?r (c # cs)" by (rule sublist_dropWhile)
      ultimately show ?thesis using ts Cons by (metis sublist_order.order_trans)
    qed
  qed
qed

lemma is_space_lower [simp]: "is_space (lower_char c) = is_space c"
proof (cases "65 \<le> (of_char c :: nat) \<and> (of_char c :: nat) \<le> 90")
  case True
  then have "(of_char (lower_char c) :: nat) = of_char c + 32"
    by (simp add: lower_char_def Let_def)
  then show ?thesis using True by (simp add: is_space_def Let_def)
next
  case False
  then have "lower_char c = c" by (auto simp add: lower_char_def Let_def)
  then show ?thesis by simp
qed


lemma split_ws_lower: "split_ws (lower s) = map lower (split_ws s)"
proof (induction s rule: split_ws.induct)
  case (1 s)
  have comp1: "is_space \<circ> lower_char = is_space" by (rule ext) simp
  have comp2: "(\<lambda>d. \<not> is_space d) \<circ> lower_char = (\<lambda>d. \<not> is_space d)" by (rule ext) simp
  have dl: "dropWhile is_space (lower s) = lower (dropWhile is_space s)"
    by (simp add: lower_def dropWhile_map comp1)
  show ?case
  proof (cases "dropWhile is_space s")
    case Nil
    then have "dropWhile is_space (lower s) = []" using dl by (simp add: lower_def del: dropWhile_eq_Nil_conv)
    then show ?thesis using split_ws_Nil Nil by simp
  next
    case (Cons c cs)
    let ?r = "dropWhile (\<lambda>d. \<not> is_space d) (c # cs)"
    have dc: "dropWhile is_space (lower s) = lower_char c # lower cs"
      using dl Cons by (simp add: lower_def)
    have tw: "takeWhile (\<lambda>d. \<not> is_space d) (lower_char c # lower cs) = lower (takeWhile (\<lambda>d. \<not> is_space d) (c # cs))"
      using takeWhile_map [of "\<lambda>d. \<not> is_space d" lower_char "c # cs"]
      by (simp add: lower_def comp2 del: takeWhile.simps)
    have dw: "dropWhile (\<lambda>d. \<not> is_space d) (lower_char c # lower cs) = lower ?r"
      using dropWhile_map [of "\<lambda>d. \<not> is_space d" lower_char "c # cs"]
      by (simp add: lower_def comp2 del: dropWhile.simps)
    have "split_ws (lower s) = lower (takeWhile (\<lambda>d. \<not> is_space d) (c # cs)) # split_ws (lower ?r)"
      using split_ws_Cons [OF dc] tw dw by simp
    also have "split_ws (lower ?r) = map lower (split_ws ?r)" using 1 [OF Cons] .
    finally show ?thesis using split_ws_Cons [OF Cons] by simp
  qed
qed

lemma catalog_keywords_plain:
  "\<forall>(t, ks) \<in> set theme_keywords. \<forall>k \<in> set ks. k \<noteq> [] \<and> (\<forall>c \<in> set k. \<not> is_space c) \<and> lower k = k"
  by code_simp

lemma detect_theme_dominant:
  assumes T: "(T, ks) \<in> set theme_keywords"
    and dom: "\<forall>(t', ks') \<in> set theme_keywords. t' \<noteq> T \<longrightarrow> keyword_count ks' prompt < keyword_count ks prompt"
  shows "detect_theme prompt w = (Inr T, w)"
proof -
  have others: "keyword_count ks' prompt < keyword_count ks prompt"
    if "(t', ks') \<in> set theme_keywords" "t' \<noteq> T" for t' ks'
    using dom that by blast
  have pos: "0 < keyword_count ks prompt"
  proof -
    have "(''nature'', [''tree'', ''grass'', ''plant'', ''garden'', ''nature'', ''leaf'']) \<in> set theme_keywords"
         "(''ocean'', [''ocean'', ''sea'', ''water'', ''wave'', ''beach'', ''blue'']) \<in> set theme_keywords"
      by (simp_all add: theme_keywords_def)
    then show ?thesis using others [of "''nature''"] others [of "''ocean''"]
      by (cases "T = ''nature''") fastforce+
  qed
  have "score_loop theme_keywords (lower prompt) [] \<noteq> []"
  proof -
    define scored where "scored = map (\<lambda>(t, ks). (t, keyword_score ks (lower prompt))) theme_keywords"
    have p: "0 < keyword_score ks (lower prompt)"
      using pos keyword_score_count [OF catalog_keywords_distinct [OF T]] by simp
    have "(T, keyword_score ks (lower prompt)) \<in> set scored"
      unfolding scored_def using T by force
    then have "(T, keyword_score ks (lower prompt)) \<in> set (filter (\<lambda>p. 0 < snd p) scored)"
      using p by simp
    then have "filter (\<lambda>p. 0 < snd p) scored \<noteq> []" by (metis empty_iff empty_set)
    then show ?thesis unfolding theme_scores_eq scored_def .
  qed
  then obtain pre T' ks' post where d: "theme_keywords = pre @ (T', ks') # post"
    "detect_theme prompt w = (Inr T', w)"
    "\<forall>(t, ks'') \<in> set pre. keyword_count ks'' prompt < keyword_count ks' prompt"
    "\<forall>(t, ks'') \<in> set post. keyword_count ks'' prompt \<le> keyword_count ks' prompt"
    using detect_theme_scored [of prompt w] by blast
  have mem: "x \<in> set theme_keywords \<longleftrightarrow> x \<in> set pre \<or> x = (T', ks') \<or> x \<in> set post" for x
    by (subst d(1)) auto
  have "T' = T"
  proof (rule ccontr)
    assume ne: "T' \<noteq> T"
    have "(T', ks') \<in> set theme_keywords" using mem by blast
    then have lt: "keyword_count ks' prompt < keyword_count ks prompt" using others ne by blast
    have "(T, ks) \<in> set pre \<or> (T, ks) \<in> set post" using T mem ne by auto
    then have "keyword_count ks prompt \<le> keyword_count ks' prompt" using d(3,4) by force
    then show False using lt by simp
  qed
  then show ?thesis using d(2) by simp
qed

lemma catalog_clean_words:
  "\<forall>(T, ks) \<in> set theme_keywords. \<forall>w \<in> set ks.
     w \<notin> {''tree'', ''street'', ''synthwave''} \<longrightarrow>
     (\<forall>(t', ks') \<in> set theme_keywords. t' \<noteq> T \<longrightarrow> (\<forall>k \<in> set ks'. \<not> is_substring k w))"
  by code_simp

lemma detect_theme_clean_words:
  assumes T: "(T, ks) \<in> set theme_keywords"
    and ne: "split_ws prompt \<noteq> []"
    and words: "\<forall>w \<in> set (split_ws prompt). w \<in> set ks"
    and clean: "\<forall>w \<in> set (split_ws prompt). \<forall>(t', ks') \<in> set theme_keywords.
                  t' \<noteq> T \<longrightarrow> (\<forall>k \<in> set ks'. \<not> is_substring k w)"
  shows "detect_theme prompt w = (Inr T, w)"
proof -
  have plain: "k \<noteq> []" "\<forall>c \<in> set k. \<not> is_space c" "lower k = k"
    if "(t, ks') \<in> set theme_keywords" "k \<in> set ks'" for t ks' k
    using catalog_keywords_plain that by blast+
  have low: "lower v = v" if "v \<in> set (split_ws prompt)" for v
    using that words plain(3) [OF T] by blast
  have zero: "keyword_count ks' prompt = 0" if o: "(t', ks') \<in> set theme_keywords" "t' \<noteq> T" for t' ks'
  proof -
    have "\<not> occurs_in k (lower prompt)" if k: "k \<in> set ks'" for k
    proof
      assume "occurs_in k (lower prompt)"
      then have "sublist k (lower prompt)" by (simp add: occurs_in_sublist)
      then obtain v where v: "v \<in> set (split_ws (lower prompt))" "sublist k v"
        using sublist_in_word plain(1,2) [OF o(1) k] by blast
      then obtain v0 where v0: "v0 \<in> set (split_ws prompt)" "v = lower v0"
        unfolding split_ws_lower by auto
      then have "sublist k v0" using v(2) low by simp
      then have "is_substring k v0" by (simp add: is_substring_iff sublist_def)
      then show False using clean v0(1) o k by blast
    qed
    then have "{k \<in> set ks'. occurs_in k (lower prompt)} = {}" by blast
    then show ?thesis by (simp add: keyword_count_def)
  qed
  have pos: "0 < keyword_count ks prompt"
  proof -
    obtain v where v: "v \<in> set (split_ws prompt)" using ne by (cases "split_ws prompt") auto
    have "sublist v prompt" using v by (rule word_sublist)
    then have "sublist (lower v) (lower prompt)" unfolding lower_def by (rule map_mono_sublist)
    then have "occurs_in v (lower prompt)" using low [OF v] by (simp add: occurs_in_sublist)
    then have "v \<in> {k \<in> set ks. occurs_in k (lower prompt)}" using v words by blast
    moreover have "finite {k \<in> set ks. occurs_in k (lower prompt)}" by simp
    ultimately have "0 < card {k \<in> set ks. occurs_in k (lower prompt)}"
      by (metis card_gt_0_iff empty_iff)
    then show ?thesis unfolding keyword_count_def .
  qed
  have "\<forall>(t', ks') \<in> set theme_keywords. t' \<noteq> T \<longrightarrow> keyword_count ks' prompt < keyword_count ks prompt"
    using zero pos by auto
  then show ?thesis using detect_theme_dominant [OF T] by blast
qed


lemma hello_counts: "\<forall>(t, ks) \<in> set theme_keywords. keyword_score ks (lower ''hello'') = 0"
  by code_simp


section \<open>Claims on \<open>detect_theme\<close>\<close>

text \<open>
  Claim C1, as the code has it. For every ASCII prompt with at least one word, all of
  whose words are keywords of one theme \<open>T\<close> of the catalog and none of whose words is
  \<open>tree\<close>, \<open>street\<close> or \<open>synthwave\<close> (the three keywords in which a keyword of another
  theme occurs), \<open>detect_theme\<close> returns exactly \<open>T\<close> and draws nothing from the random
  generator.
\<close>

theorem detect_theme_single_theme:
  assumes "ascii prompt"
    and "(T, ks) \<in> set theme_keywords"
    and "split_ws prompt \<noteq> []"
    and "\<forall>w \<in> set (split_ws prompt). w \<in> set ks \<and> w \<notin> {''tree'', ''street'', ''synthwave''}"
  shows "detect_theme prompt w = (Inr T, w)"
proof (rule detect_theme_clean_words [OF assms(2,3)])
  show "\<forall>w \<in> set (split_ws prompt). w \<in> set ks" using assms(4) by blast
  show "\<forall>w \<in> set (split_ws prompt). \<forall>(t', ks') \<in> set theme_keywords.
          t' \<noteq> T \<longrightarrow> (\<forall>k \<in> set ks'. \<not> is_substring k w)"
  proof
    fix v assume v: "v \<in> set (split_ws prompt)"
    then have "v \<in> set ks" "v \<notin> {''tree'', ''street'', ''synthwave''}" using assms(4) by blast+
    then show "\<forall>(t', ks') \<in> set theme_keywords. t' \<noteq> T \<longrightarrow> (\<forall>k \<in> set ks'. \<not> is_substring k v)"
      using catalog_clean_words assms(2) by fast
  qed
qed


theorem detect_theme_single_theme_witness:
  "ascii ''ocean sea'' \<and>
   (''ocean'', [''ocean'', ''sea'', ''water'', ''wave'', ''beach'', ''blue'']) \<in> set theme_keywords \<and>
   split_ws ''ocean sea'' = [''ocean'', ''sea''] \<and>
   detect_theme ''ocean sea'' (start_world (\<lambda>_. 0)) = (Inr ''ocean'', start_world (\<lambda>_. 0))"
proof -
  have a: "ascii ''ocean sea''" by code_simp
  have m: "(''ocean'', [''ocean'', ''sea'', ''water'', ''wave'', ''beach'', ''blue'']) \<in> set theme_keywords"
    by (simp add: theme_keywords_def)
  have s: "split_ws ''ocean sea'' = [''ocean'', ''sea'']" by code_simp
  have n: "split_ws ''ocean sea'' \<noteq> []" unfolding s by simp
  have k: "\<forall>w \<in> set (split_ws ''ocean sea'').
             w \<in> set [''ocean'', ''sea'', ''water'', ''wave'', ''beach'', ''blue''] \<and>
             w \<notin> {''tree'', ''street'', ''synthwave''}"
    unfolding s by simp
  show ?thesis using detect_theme_single_theme [OF a m n k] a m s by simp
qed


text \<open>
  The claim as stated fails: \<open>street\<close> is a keyword of the theme \<open>city\<close> only, yet on
  the prompt \<open>street\<close> the themes \<open>nature\<close>, \<open>forest\<close> (through the substring \<open>tree\<close>) and
  \<open>city\<close> all score one, and the first of them in the catalog, \<open>nature\<close>, is returned.
\<close>

theorem detect_theme_street_counterexample:
  "split_ws ''street'' = [''street''] \<and>
   map fst (filter (\<lambda>(t, ks). ''street'' \<in> set ks) theme_keywords) = [''city''] \<and>
   fst (detect_theme ''street'' (start_world (\<lambda>_. 0))) = Inr ''nature''"
  by code_simp

text \<open>
  Claim C7, as the code has it. For every ASCII prompt in which at least one keyword of
  some theme occurs, \<open>detect_theme\<close> returns a theme \<open>T\<close> of the catalog whose count of
  keywords occurring in the lowercased prompt is maximal, and it is the first such
  theme: every theme before \<open>T\<close> in the catalog has a strictly smaller count, every
  theme after it a count that is not greater. No random draw is made.
\<close>

theorem detect_theme_max_first:
  assumes "ascii prompt"
    and "\<exists>(t, ks) \<in> set theme_keywords. 0 < keyword_count ks prompt"
  shows "\<exists>pre T ks post. theme_keywords = pre @ (T, ks) # post \<and>
           detect_theme prompt w = (Inr T, w) \<and>
           (\<forall>(t, ks') \<in> set pre. keyword_count ks' prompt < keyword_count ks prompt) \<and>
           (\<forall>(t, ks') \<in> set post. keyword_count ks' prompt \<le> keyword_count ks prompt)"
proof -
  obtain t ks where m: "(t, ks) \<in> set theme_keywords" "0 < keyword_count ks prompt"
    using assms(2) by auto
  define scored where "scored = map (\<lambda>(t, ks). (t, keyword_score ks (lower prompt))) theme_keywords"
  have pos: "0 < keyword_score ks (lower prompt)"
    using m keyword_score_count [OF catalog_keywords_distinct [OF m(1)]] by simp
  have "(t, keyword_score ks (lower prompt)) \<in> set scored"
    unfolding scored_def using m(1) by force
  then have "(t, keyword_score ks (lower prompt)) \<in> set (filter (\<lambda>p. 0 < snd p) scored)"
    using pos by simp
  then have "filter (\<lambda>p. 0 < snd p) scored \<noteq> []"
    by (metis empty_iff empty_set)
  then have "score_loop theme_keywords (lower prompt) [] \<noteq> []"
    unfolding theme_scores_eq scored_def .
  then show ?thesis by (rule detect_theme_scored)
qed


theorem detect_theme_max_first_witness:
  "ascii ''Ocean waves at sunset'' \<and>
   (\<exists>(t, ks) \<in> set theme_keywords. 0 < keyword_count ks ''Ocean waves at sunset'') \<and>
   (\<exists>pre T ks post. theme_keywords = pre @ (T, ks) # post \<and>
      detect_theme ''Ocean waves at sunset'' (start_world (\<lambda>_. 0)) = (Inr T, start_world (\<lambda>_. 0)) \<and>
      (\<forall>(t, ks') \<in> set pre. keyword_count ks' ''Ocean waves at sunset'' < keyword_count ks ''Ocean waves at sunset'') \<and>
      (\<forall>(t, ks') \<in> set post. keyword_count ks' ''Ocean waves at sunset'' \<le> keyword_count ks ''Ocean waves at sunset'')) \<and>
   fst (detect_theme ''Ocean waves at sunset'' (start_world (\<lambda>_. 0))) = Inr ''ocean''"
proof -
  let ?ks = "[''ocean'', ''sea'', ''water'', ''wave'', ''beach'', ''blue'']"
  have a: "ascii ''Ocean waves at sunset''" by code_simp
  have m: "(''ocean'', ?ks) \<in> set theme_keywords" by (simp add: theme_keywords_def)
  have "keyword_score ?ks (lower ''Ocean waves at sunset'') = 2" by code_simp
  then have "keyword_count ?ks ''Ocean waves at sunset'' = 2"
    using keyword_score_count [OF catalog_keywords_distinct [OF m]] by simp
  then have h: "\<exists>(t, ks) \<in> set theme_keywords. 0 < keyword_count ks ''Ocean waves at sunset''"
    using m by force
  have e: "fst (detect_theme ''Ocean waves at sunset'' (start_world (\<lambda>_. 0))) = Inr ''ocean''"
    by code_simp
  show ?thesis using detect_theme_max_first [OF a h, of "start_world (\<lambda>_. 0)"] a h e by blast
qed


text \<open>
  Without the condition the claim fails: in \<open>hello\<close> no keyword occurs, every theme has
  the maximal count zero and the first of them is \<open>nature\<close>, but the code returns a
  random theme, \<open>retro\<close> when the draw is 9.
\<close>

theorem detect_theme_no_match_counterexample:
  "\<not> (\<exists>pre T ks post. theme_keywords = pre @ (T, ks) # post \<and>
        fst (detect_theme ''hello'' (start_world (\<lambda>_. 9))) = Inr T \<and>
        (\<forall>(t, ks') \<in> set pre. keyword_count ks' ''hello'' < keyword_count ks ''hello'') \<and>
        (\<forall>(t, ks') \<in> set post. keyword_count ks' ''hello'' \<le> keyword_count ks ''hello''))"
proof
  assume "\<exists>pre T ks post. theme_keywords = pre @ (T, ks) # post \<and>
        fst (detect_theme ''hello'' (start_world (\<lambda>_. 9))) = Inr T \<and>
        (\<forall>(t, ks') \<in> set pre. keyword_count ks' ''hello'' < keyword_count ks ''hello'') \<and>
        (\<forall>(t, ks') \<in> set post. keyword_count ks' ''hello'' \<le> keyword_count ks ''hello'')"
  then obtain pre T ks post where d: "theme_keywords = pre @ (T, ks) # post"
    "fst (detect_theme ''hello'' (start_world (\<lambda>_. 9))) = Inr T"
    "\<forall>(t, ks') \<in> set pre. keyword_count ks' ''hello'' < keyword_count ks ''hello''"
    by blast
  have "fst (detect_theme ''hello'' (start_world (\<lambda>_. 9))) = Inr ''retro''" by code_simp
  then have T: "T = ''retro''" using d(2) by simp
  have mem: "x \<in> set theme_keywords \<longleftrightarrow> x \<in> set pre \<or> x = (T, ks) \<or> x \<in> set post" for x
    by (subst d(1)) auto
  have "(T, ks) \<in> set theme_keywords" using mem by blast
  then have "keyword_count ks ''hello'' = 0"
    using hello_counts keyword_score_count [OF catalog_keywords_distinct] by fastforce
  then have "pre = []" using d(3) by (cases pre) auto
  then have "hd theme_keywords = (T, ks)" by (subst d(1)) simp
  then have "T = ''nature''" by (simp add: theme_keywords_def)
  then show False using T by simp
qed

section \<open>Lemmas on colours and \<open>blend_colors\<close>\<close>

lemma hex_digit_range:
  "hex_digit c = Some v \<Longrightarrow> 0 \<le> v \<and> v \<le> 15"
  by (auto simp: hex_digit_def Let_def split: if_splits)

lemma hex_digit_not_special:
  assumes "hex_digit c = Some v"
  shows "\<not> int_space c" "c \<noteq> CHR ''-''" "c \<noteq> CHR ''+''" "c \<noteq> CHR ''_''" "c \<noteq> CHR ''x''" "c \<noteq> CHR ''X''"
proof -
  have n: "48 \<le> (of_char c :: nat)" "(of_char c :: nat) \<le> 102"
    using assms by (auto simp: hex_digit_def Let_def split: if_splits)
  show "\<not> int_space c" using n by (simp add: int_space_def Let_def)
  show "c \<noteq> CHR ''-''" "c \<noteq> CHR ''+''" "c \<noteq> CHR ''_''" "c \<noteq> CHR ''x''" "c \<noteq> CHR ''X''"
    using assms by (auto simp: hex_digit_def)
qed

lemma int16_two_digits:
  assumes a: "hex_digit a = Some va" and b: "hex_digit b = Some vb"
  shows "int16 [a, b] = Inr (16 * va + vb)"
proof -
  have s: "rev (dropWhile int_space (rev (dropWhile int_space [a, b]))) = [a, b]"
    using hex_digit_not_special(1) [OF a] hex_digit_not_special(1) [OF b] by simp
  have p: "[a, b] \<noteq> ''0x''" "[a, b] \<noteq> ''0X''"
    using hex_digit_not_special(5,6) [OF b] by auto
  show ?thesis
    unfolding int16_def s Let_def
    using hex_digit_not_special(2,3,4) [OF a] hex_digit_not_special(4) [OF b] p a b
    by simp
qed

lemma len7: "length xs = 7 \<Longrightarrow> \<exists>a b c d e f g. xs = [a, b, c, d, e, f, g]"
  by (auto simp: eval_nat_numeral length_Suc_conv)

lemma hex_rgb_valid:
  assumes "valid_hex color"
  shows "hex_rgb color = Inr (rgb_triple color)"
proof -
  obtain h c1 c2 c3 c4 c5 c6 where c: "color = [h, c1, c2, c3, c4, c5, c6]"
    using assms len7 [of color] unfolding valid_hex_def by blast
  obtain v1 v2 v3 v4 v5 v6 where v: "hex_digit c1 = Some v1" "hex_digit c2 = Some v2"
    "hex_digit c3 = Some v3" "hex_digit c4 = Some v4" "hex_digit c5 = Some v5" "hex_digit c6 = Some v6"
    using assms unfolding valid_hex_def c by auto
  have "slice color 1 3 = [c1, c2]" "slice color 3 5 = [c3, c4]" "slice color 5 7 = [c5, c6]"
    unfolding c slice_def by simp_all
  then show ?thesis
    unfolding hex_rgb_def rgb_triple_def
    using int16_two_digits [OF v(1,2)] int16_two_digits [OF v(3,4)] int16_two_digits [OF v(5,6)] v
    by (simp add: c hex_value_def)
qed

lemma rgb_triple_range:
  assumes "valid_hex color" "rgb_triple color = (r, g, b)"
  shows "0 \<le> r \<and> r \<le> 255 \<and> 0 \<le> g \<and> g \<le> 255 \<and> 0 \<le> b \<and> b \<le> 255"
proof -
  obtain h c1 c2 c3 c4 c5 c6 where c: "color = [h, c1, c2, c3, c4, c5, c6]"
    using assms(1) len7 [of color] unfolding valid_hex_def by blast
  obtain v1 v2 v3 v4 v5 v6 where v: "hex_digit c1 = Some v1" "hex_digit c2 = Some v2"
    "hex_digit c3 = Some v3" "hex_digit c4 = Some v4" "hex_digit c5 = Some v5" "hex_digit c6 = Some v6"
    using assms(1) unfolding valid_hex_def c by auto
  show ?thesis
    using assms(2) v hex_digit_range [OF v(1)] hex_digit_range [OF v(2)] hex_digit_range [OF v(3)]
      hex_digit_range [OF v(4)] hex_digit_range [OF v(5)] hex_digit_range [OF v(6)]
    unfolding rgb_triple_def c by (auto simp: hex_value_def)
qed

lemma rounding_int: "rounding f \<Longrightarrow> \<bar>k\<bar> \<le> 2 ^ 53 \<Longrightarrow> f (of_int k) = of_int k"
  by (simp add: rounding_def)

lemma rounding_mono: "rounding f \<Longrightarrow> x \<le> y \<Longrightarrow> f x \<le> f y"
  by (simp add: rounding_def monoD)

lemma py_trunc_of_int [simp]: "py_trunc (of_int k) = k"
  by (simp add: py_trunc_def)

lemma py_trunc_between:
  assumes "of_int a \<le> x" "x \<le> of_int b"
  shows "a \<le> py_trunc x \<and> py_trunc x \<le> b"
proof -
  have "a \<le> \<lfloor>x\<rfloor>" "\<lfloor>x\<rfloor> \<le> b" "a \<le> \<lceil>x\<rceil>" "\<lceil>x\<rceil> \<le> b"
    using assms by (simp_all add: le_floor_iff floor_le_iff ceiling_le_iff le_ceiling_iff)
  then show ?thesis by (simp add: py_trunc_def)
qed

section \<open>Claim on \<open>blend_colors\<close>\<close>

lemma blend_channel_0:
  assumes "rounding (fl E)" "\<bar>c1\<bar> \<le> 255"
  shows "blend_channel E c1 c2 0 = c1"
proof -
  have z: "fl E 0 = 0" using rounding_int [OF assms(1), of 0] by simp
  have "fl E (of_int c1) = of_int c1" using rounding_int [OF assms(1), of c1] assms(2) by simp
  then show ?thesis by (simp add: blend_channel_def z)
qed

lemma blend_channel_1:
  assumes "rounding (fl E)" "\<bar>c1\<bar> \<le> 255" "\<bar>c2\<bar> \<le> 255"
  shows "blend_channel E c1 c2 1 = c2"
proof -
  have "\<bar>c2 - c1\<bar> \<le> 2 ^ 53" using assms(2,3) by simp
  then have d: "fl E (of_int (c2 - c1)) = of_int (c2 - c1)" by (rule rounding_int [OF assms(1)])
  have "fl E (of_int c2) = of_int c2" using rounding_int [OF assms(1), of c2] assms(3) by simp
  then show ?thesis using d by (simp add: blend_channel_def)
qed

lemma blend_channel_between:
  assumes f: "rounding (fl E)" and c: "\<bar>c1\<bar> \<le> 255" "\<bar>c2\<bar> \<le> 255" and r: "0 \<le> ratio" "ratio \<le> 1"
  shows "between c1 c2 (blend_channel E c1 c2 ratio)"
proof -
  let ?d = "c2 - c1"
  define t where "t = fl E (of_int ?d * ratio)"
  have z: "fl E 0 = 0" using rounding_int [OF f, of 0] by simp
  have "\<bar>?d\<bar> \<le> 2 ^ 53" using c by simp
  then have d: "fl E (of_int ?d) = of_int ?d" by (rule rounding_int [OF f])
  have f1: "fl E (of_int c1) = of_int c1" using rounding_int [OF f, of c1] c(1) by simp
  have f2: "fl E (of_int c2) = of_int c2" using rounding_int [OF f, of c2] c(2) by simp
  show ?thesis
  proof (cases "0 \<le> ?d")
    case True
    then have "0 \<le> of_int ?d * ratio" "of_int ?d * ratio \<le> of_int ?d"
      using r by (simp_all add: mult_left_le)
    then have "0 \<le> t" "t \<le> of_int ?d"
      unfolding t_def using rounding_mono [OF f] z d by metis+
    then have "of_int c1 \<le> of_int c1 + t" "of_int c1 + t \<le> of_int c2" by simp_all
    then have "of_int c1 \<le> fl E (of_int c1 + t)" "fl E (of_int c1 + t) \<le> of_int c2"
      using rounding_mono [OF f] f1 f2 by metis+
    then have "c1 \<le> blend_channel E c1 c2 ratio \<and> blend_channel E c1 c2 ratio \<le> c2"
      unfolding blend_channel_def t_def [symmetric] by (rule py_trunc_between)
    then show ?thesis using True by (simp add: between_def)
  next
    case False
    then have neg: "of_int ?d \<le> (0 :: real)" by simp
    have "of_int ?d * ratio \<le> 0" using neg r(1) by (simp add: mult_le_0_iff)
    moreover have "of_int ?d \<le> of_int ?d * ratio"
      using neg r mult_left_mono_neg [of ratio 1 "of_int ?d"] by simp
    ultimately have "t \<le> 0" "of_int ?d \<le> t"
      unfolding t_def using rounding_mono [OF f] z d by metis+
    then have "of_int c2 \<le> of_int c1 + t" "of_int c1 + t \<le> of_int c1" by simp_all
    then have "of_int c2 \<le> fl E (of_int c1 + t)" "fl E (of_int c1 + t) \<le> of_int c1"
      using rounding_mono [OF f] f1 f2 by metis+
    then have "c2 \<le> blend_channel E c1 c2 ratio \<and> blend_channel E c1 c2 ratio \<le> c1"
      unfolding blend_channel_def t_def [symmetric] by (rule py_trunc_between)
    then show ?thesis using False by (simp add: between_def)
  qed
qed

text \<open>
  Claim C2. For every pair of valid six-digit hex colours and every ratio from 0 to 1,
  under every rounding of floats that is monotone and exact on the integers up to
  \<open>2\<^sup>5\<^sup>3\<close>: \<open>blend_colors\<close> at ratio 0 is the RGB triple of the first colour, at
  ratio 1 the RGB triple of the second, and at the ratio given every channel of the
  result lies between the corresponding channels of the two colours, ends included.
\<close>

theorem blend_colors_interpolates:
  assumes "rounding (fl E)" and "valid_hex c1" and "valid_hex c2" and "0 \<le> ratio" and "ratio \<le> 1"
  shows "blend_colors E c1 c2 0 = Inr (rgb_triple c1) \<and>
         blend_colors E c1 c2 1 = Inr (rgb_triple c2) \<and>
         (\<exists>r g b r1 g1 b1 r2 g2 b2.
            blend_colors E c1 c2 ratio = Inr (r, g, b) \<and>
            rgb_triple c1 = (r1, g1, b1) \<and> rgb_triple c2 = (r2, g2, b2) \<and>
            between r1 r2 r \<and> between g1 g2 g \<and> between b1 b2 b)"
proof -
  obtain r1 g1 b1 where t1: "rgb_triple c1 = (r1, g1, b1)" by (cases "rgb_triple c1")
  obtain r2 g2 b2 where t2: "rgb_triple c2 = (r2, g2, b2)" by (cases "rgb_triple c2")
  have h1: "hex_rgb c1 = Inr (r1, g1, b1)" using hex_rgb_valid [OF assms(2)] t1 by simp
  have h2: "hex_rgb c2 = Inr (r2, g2, b2)" using hex_rgb_valid [OF assms(3)] t2 by simp
  have b1: "\<bar>r1\<bar> \<le> 255" "\<bar>g1\<bar> \<le> 255" "\<bar>b1\<bar> \<le> 255"
    using rgb_triple_range [OF assms(2) t1] by auto
  have b2: "\<bar>r2\<bar> \<le> 255" "\<bar>g2\<bar> \<le> 255" "\<bar>b2\<bar> \<le> 255"
    using rgb_triple_range [OF assms(3) t2] by auto
  have e: "blend_colors E c1 c2 q =
      Inr (blend_channel E r1 r2 q, blend_channel E g1 g2 q, blend_channel E b1 b2 q)" for q
    by (simp add: blend_colors_def h1 h2)
  have "blend_colors E c1 c2 0 = Inr (rgb_triple c1)"
    unfolding e t1 using blend_channel_0 [OF assms(1)] b1 by simp
  moreover have "blend_colors E c1 c2 1 = Inr (rgb_triple c2)"
    unfolding e t2 using blend_channel_1 [OF assms(1)] b1 b2 by simp
  moreover have "between r1 r2 (blend_channel E r1 r2 ratio)"
    "between g1 g2 (blend_channel E g1 g2 ratio)" "between b1 b2 (blend_channel E b1 b2 ratio)"
    using blend_channel_between [OF assms(1) _ _ assms(4,5)] b1 b2 by blast+
  ultimately show ?thesis using e [of ratio] t1 t2 by blast
qed

lemma rounding_plain: "rounding (fl plain_env)"
  by (simp add: rounding_def plain_env_def mono_def)

text \<open>
  The theorem at the colours \<open>#FF6347\<close> and \<open>#006994\<close>, the ratio one half and exact
  arithmetic.
\<close>

theorem blend_colors_interpolates_witness:
  "rounding (fl plain_env) \<and> valid_hex ''#FF6347'' \<and> valid_hex ''#006994'' \<and>
   (0 :: real) \<le> 1 / 2 \<and> (1 / 2 :: real) \<le> 1 \<and>
   blend_colors plain_env ''#FF6347'' ''#006994'' 0 = Inr (rgb_triple ''#FF6347'') \<and>
   blend_colors plain_env ''#FF6347'' ''#006994'' 1 = Inr (rgb_triple ''#006994'') \<and>
   (\<exists>r g b r1 g1 b1 r2 g2 b2.
      blend_colors plain_env ''#FF6347'' ''#006994'' (1 / 2) = Inr (r, g, b) \<and>
      rgb_triple ''#FF6347'' = (r1, g1, b1) \<and> rgb_triple ''#006994'' = (r2, g2, b2) \<and>
      between r1 r2 r \<and> between g1 g2 g \<and> between b1 b2 b) \<and>
   rgb_triple ''#FF6347'' = (255, 99, 71) \<and> rgb_triple ''#006994'' = (0, 105, 148)"
proof -
  have v1: "valid_hex ''#FF6347''" by code_simp
  have v2: "valid_hex ''#006994''" by code_simp
  have r: "(0 :: real) \<le> 1 / 2" "(1 / 2 :: real) \<le> 1" by simp_all
  have t: "rgb_triple ''#FF6347'' = (255, 99, 71)" "rgb_triple ''#006994'' = (0, 105, 148)"
    by code_simp+
  show ?thesis
    using blend_colors_interpolates [OF rounding_plain v1 v2 r] rounding_plain v1 v2 r t by blast
qed

section \<open>Claim on the empty prompt, and lemmas on the words of a prompt\<close>

lemma strip_blank: "blank s \<Longrightarrow> strip s = []"
proof -
  assume "blank s"
  then have "dropWhile is_space s = []" by (simp add: blank_def list_all_iff)
  then show ?thesis unfolding strip_def by (simp del: dropWhile_eq_Nil_conv)
qed

text \<open>
  Claim C4. For every prompt that is empty or consists of whitespace only,
  \<open>generate_image\<close> returns the failure value \<open>None\<close>, and all it does to the world is
  print the message that the prompt cannot be empty: the random generator, the clock
  and the files are as before, so no theme was drawn, nothing rendered and nothing
  written.
\<close>

theorem generate_image_blank_prompt:
  assumes "blank prompt"
  shows "generate_image E prompt width height style w =
           (Inr None, w\<lparr>stdout := stdout w @ [MsgEmptyPrompt]\<rparr>)"
  using strip_blank [OF assms]
  by (simp add: generate_image_def bind_def print_def ret_def)

text \<open>
  The theorem at the prompts of three spaces and of no character.
\<close>

theorem generate_image_blank_prompt_witness:
  "blank ''   '' \<and> blank '''' \<and>
   generate_image plain_env ''   '' 800 600 ''auto'' (start_world (\<lambda>_. 0)) =
     (Inr None, (start_world (\<lambda>_. 0))\<lparr>stdout := stdout (start_world (\<lambda>_. 0)) @ [MsgEmptyPrompt]\<rparr>) \<and>
   generate_image plain_env '''' 800 600 ''auto'' (start_world (\<lambda>_. 0)) =
     (Inr None, (start_world (\<lambda>_. 0))\<lparr>stdout := stdout (start_world (\<lambda>_. 0)) @ [MsgEmptyPrompt]\<rparr>)"
proof -
  have b: "blank ''   ''" "blank ''''" by code_simp+
  show ?thesis
    using generate_image_blank_prompt [OF b(1)] generate_image_blank_prompt [OF b(2)] b by simp
qed

lemma split_ws_words:
  "w \<in> set (split_ws s) \<Longrightarrow> w \<noteq> [] \<and> (\<forall>c \<in> set w. \<not> is_space c)"
proof (induction s rule: split_ws.induct)
  case (1 s)
  show ?case
  proof (cases "dropWhile is_space s")
    case Nil
    then show ?thesis using 1(2) split_ws_Nil by simp
  next
    case (Cons c cs)
    let ?w = "takeWhile (\<lambda>d. \<not> is_space d) (c # cs)"
    let ?r = "dropWhile (\<lambda>d. \<not> is_space d) (c # cs)"
    have nc: "\<not> is_space c" using Cons by (metis hd_dropWhile list.sel(1) list.distinct(1))
    from 1(2) have "w = ?w \<or> w \<in> set (split_ws ?r)" using split_ws_Cons [OF Cons] by simp
    then show ?thesis
    proof
      assume w: "w = ?w"
      have "w \<noteq> []" using w nc by simp
      moreover have "\<forall>d \<in> set w. \<not> is_space d" unfolding w by (auto dest: set_takeWhileD)
      ultimately show ?thesis by blast
    next
      assume "w \<in> set (split_ws ?r)"
      then show ?thesis using 1(1) [OF Cons] by blast
    qed
  qed
qed

lemma split_ws_concat: "concat (split_ws s) = filter (\<lambda>c. \<not> is_space c) s"
proof (induction s rule: split_ws.induct)
  case (1 s)
  have s: "s = takeWhile is_space s @ dropWhile is_space s" by simp
  have f0: "filter (\<lambda>c. \<not> is_space c) (takeWhile is_space s) = []"
    by (auto simp: filter_empty_conv dest: set_takeWhileD)
  have fs: "filter (\<lambda>c. \<not> is_space c) s = filter (\<lambda>c. \<not> is_space c) (dropWhile is_space s)"
    by (subst s) (simp only: filter_append f0 append_Nil)
  show ?case
  proof (cases "dropWhile is_space s")
    case Nil
    then show ?thesis using fs split_ws_Nil by simp
  next
    case (Cons c cs)
    let ?t = "c # cs"
    let ?w = "takeWhile (\<lambda>d. \<not> is_space d) ?t"
    let ?r = "dropWhile (\<lambda>d. \<not> is_space d) ?t"
    have t: "?t = ?w @ ?r" by simp
    have fw: "filter (\<lambda>c. \<not> is_space c) ?w = ?w"
      by (rule filter_True) (auto dest: set_takeWhileD)
    have "filter (\<lambda>c. \<not> is_space c) ?t = ?w @ filter (\<lambda>c. \<not> is_space c) ?r"
      by (subst t) (simp only: filter_append fw)
    then show ?thesis using fs Cons split_ws_Cons [OF Cons] 1 [OF Cons] by simp
  qed
qed

lemma upper_join_sp: "upper (join_sp ws) = join_sp (map upper ws)"
proof (induction ws rule: join_sp.induct)
  case (3 w v ws)
  have "upper_char (CHR '' '') = CHR '' ''" by (simp add: upper_char_def)
  then show ?case using 3 by (simp add: upper_def)
qed (simp_all add: upper_def)

section \<open>Lemmas on programs, random draws and compositing\<close>

lemma bind_ret [simp]: "bind (ret x) f = f x"
  by (rule ext) (simp add: bind_def ret_def)

lemma bind_lift_Inr [simp]: "bind (lift (Inr x)) f = f x"
  by (rule ext) (simp add: bind_def lift_def)

lemma bind_lift_Inl [simp]: "bind (lift (Inl e)) f = raise e"
  by (rule ext) (simp add: bind_def lift_def raise_def)

lemma bind_raise [simp]: "bind (raise e) f = raise e"
  by (rule ext) (simp add: bind_def raise_def)

lemma bind_Inr: "m w = (Inr x, w') \<Longrightarrow> bind m f w = f x w'"
  by (simp add: bind_def)

lemma bind_Inl: "m w = (Inl e, w') \<Longrightarrow> bind m f w = (Inl e, w')"
  by (simp add: bind_def)

lemma random_choice_nonempty:
  "xs \<noteq> [] \<Longrightarrow>
   random_choice xs w = (Inr (xs ! (rng w (rng_pos w) mod length xs)), w\<lparr>rng_pos := Suc (rng_pos w)\<rparr>)"
  by (simp add: random_choice_def bind_def draw_raw_def ret_def)

lemma random_randint_ok:
  "a \<le> b \<Longrightarrow>
   random_randint a b w =
     (Inr (a + int (rng w (rng_pos w) mod nat (b - a + 1))), w\<lparr>rng_pos := Suc (rng_pos w)\<rparr>)"
  by (simp add: random_randint_def bind_def draw_raw_def ret_def)

lemma random_randint_range:
  assumes "a \<le> b" "random_randint a b w = (Inr v, w')"
  shows "a \<le> v \<and> v \<le> b"
proof -
  define k where "k = rng w (rng_pos w) mod nat (b - a + 1)"
  have "k < nat (b - a + 1)" unfolding k_def using assms(1) by simp
  then have "int k < b - a + 1" by linarith
  moreover have "v = a + int k"
    using assms(2) random_randint_ok [OF assms(1), of w] unfolding k_def by simp
  ultimately show ?thesis by simp
qed

text \<open>The image with its alpha dropped.\<close>

lemma composite_transparent:
  assumes "0 \<le> im_width img" "0 \<le> im_height img"
    and "Image_new RGBA (im_width img) (im_height img) (0, 0, 0, 0) = Inr overlay"
  shows "composite_onto img overlay =
           Inr (img\<lparr>im_mode := RGB, im_px := (\<lambda>x y. case im_px img x y of (r, g, b, a) \<Rightarrow> (r, g, b, 255))\<rparr>)"
proof -
  have o: "overlay = \<lparr>im_mode = RGBA, im_width = im_width img, im_height = im_height img, im_px = (\<lambda>x y. (0, 0, 0, 0))\<rparr>"
    using assms by (simp add: Image_new_def)
  have ov: "over p (0, 0, 0, 0) = p" for p by (cases p) (simp add: over_def)
  have e: "(\<lambda>x y. case (case im_px img x y of (r, g, b, a) \<Rightarrow> (r, g, b, if im_mode img = RGBA then a else 255)) of
                  (r, g, b, a) \<Rightarrow> (r, g, b, 255 :: int))
           = (\<lambda>x y. case im_px img x y of (r, g, b, a) \<Rightarrow> (r, g, b, 255))"
    by (intro ext) (simp split: prod.splits)
  show ?thesis
    unfolding composite_onto_def alpha_composite_def convert_def o
    by (simp add: ov e)
qed

section \<open>Claim on the pattern kinds without a drawing rule\<close>

lemma composite_transparent_convert:
  assumes "0 \<le> im_width img" "0 \<le> im_height img"
    and "Image_new RGBA (im_width img) (im_height img) (0, 0, 0, 0) = Inr overlay"
  shows "composite_onto img overlay = Inr (convert img RGB)"
  using composite_transparent [OF assms] by (simp add: convert_def)

lemma convert_RGB_idem: "convert (convert img RGB) RGB = convert img RGB"
  by (simp add: convert_def case_prod_beta)

lemma convert_size [simp]:
  "im_width (convert img m) = im_width img" "im_height (convert img m) = im_height img"
  "im_mode (convert img m) = m"
  by (simp_all add: convert_def)

lemma convert_rgb_of [simp]: "rgb_of (im_px (convert img m) x y) = rgb_of (im_px img x y)"
  by (simp add: convert_def rgb_of_def split: prod.splits)

lemma add_shape_no_drawing:
  assumes pt: "pattern_type \<noteq> ''circles''" "pattern_type \<noteq> ''rectangles''"
    and c: "colors \<noteq> []" and wf: "0 \<le> im_width img" "0 \<le> im_height img"
  shows "add_shape E pattern_type (im_width img) (im_height img) colors img w =
           (Inr (convert img RGB), w\<lparr>rng_pos := rng_pos w + 2\<rparr>)"
proof -
  obtain overlay where o: "Image_new RGBA (im_width img) (im_height img) (0, 0, 0, 0) = Inr overlay"
    using wf by (simp add: Image_new_def)
  have s: "shape_overlay E pattern_type (im_width img) (im_height img) color alpha overlay = ret overlay"
    for color alpha using pt by (simp add: shape_overlay_def)
  have r: "(50 :: int) \<le> 150" by simp
  show ?thesis
    unfolding add_shape_def
    by (simp add: bind_def random_choice_nonempty [OF c] random_randint_ok [OF r]
        o s composite_transparent_convert [OF wf o] lift_def ret_def)
qed

lemma for_each_no_drawing:
  assumes pt: "pattern_type \<noteq> ''circles''" "pattern_type \<noteq> ''rectangles''"
    and c: "colors \<noteq> []" and wf: "0 \<le> im_width img" "0 \<le> im_height img"
  shows "for_each xs (\<lambda>_ im. add_shape E pattern_type (im_width img) (im_height img) colors im) img w =
           (Inr (if xs = [] then img else convert img RGB), w\<lparr>rng_pos := rng_pos w + 2 * length xs\<rparr>)"
  using wf
proof (induction xs arbitrary: img w)
  case Nil
  then show ?case by (simp add: ret_def)
next
  case (Cons x xs)
  have step: "add_shape E pattern_type (im_width img) (im_height img) colors img w =
      (Inr (convert img RGB), w\<lparr>rng_pos := rng_pos w + 2\<rparr>)"
    using add_shape_no_drawing [OF pt c Cons.prems] .
  have ih: "for_each xs (\<lambda>_ im. add_shape E pattern_type (im_width img) (im_height img) colors im)
              (convert img RGB) (w\<lparr>rng_pos := rng_pos w + 2\<rparr>) =
      (Inr (if xs = [] then convert img RGB else convert (convert img RGB) RGB),
       w\<lparr>rng_pos := rng_pos w + 2 + 2 * length xs\<rparr>)"
    using Cons.IH [of "convert img RGB" "w\<lparr>rng_pos := rng_pos w + 2\<rparr>"] Cons.prems by simp
  show ?case
    using ih by (simp add: bind_def step convert_RGB_idem)
qed

lemma add_geometric_patterns_no_drawing:
  assumes sel: "selects [''circles'', ''rectangles'', ''triangles'', ''lines''] ''triangles'' w
              \<or> selects [''circles'', ''rectangles'', ''triangles'', ''lines''] ''lines'' w"
    and c: "colors \<noteq> []" and wf: "0 \<le> im_width img" "0 \<le> im_height img"
  shows "\<exists>n. 5 \<le> n \<and> n \<le> 15 \<and>
           add_geometric_patterns E img colors w =
             (Inr (convert img RGB), w\<lparr>rng_pos := rng_pos w + 2 + 2 * n\<rparr>)"
proof -
  let ?ps = "[''circles'', ''rectangles'', ''triangles'', ''lines'']"
  define pt where "pt = ?ps ! (rng w (rng_pos w) mod length ?ps)"
  define w1 where "w1 = w\<lparr>rng_pos := Suc (rng_pos w)\<rparr>"
  have ch: "random_choice ?ps w = (Inr pt, w1)"
    unfolding pt_def w1_def by (rule random_choice_nonempty) simp
  have "pt = ''triangles'' \<or> pt = ''lines''" using sel ch by (simp add: selects_def)
  then have pt: "pt \<noteq> ''circles''" "pt \<noteq> ''rectangles''" by auto
  define v where "v = 5 + int (rng w1 (rng_pos w1) mod nat (15 - 5 + 1))"
  define w2 where "w2 = w1\<lparr>rng_pos := Suc (rng_pos w1)\<rparr>"
  have ri: "random_randint 5 15 w1 = (Inr v, w2)"
    unfolding v_def w2_def by (rule random_randint_ok) simp
  have vr: "5 \<le> v \<and> v \<le> 15" using random_randint_range [OF _ ri] by simp
  have len: "length (py_range v) = nat v" "py_range v \<noteq> []"
    using vr by (auto simp: py_range_def)
  have "add_geometric_patterns E img colors w =
      for_each (py_range v) (\<lambda>_ im. add_shape E pt (im_width img) (im_height img) colors im) img w2"
    unfolding add_geometric_patterns_def Let_def
    by (simp add: bind_def ch ri)
  also have "\<dots> = (Inr (convert img RGB), w2\<lparr>rng_pos := rng_pos w2 + 2 * nat v\<rparr>)"
    using for_each_no_drawing [OF pt c wf, where E = E and xs = "py_range v" and w = w2] len by simp
  also have "w2\<lparr>rng_pos := rng_pos w2 + 2 * nat v\<rparr> = w\<lparr>rng_pos := rng_pos w + 2 + 2 * nat v\<rparr>"
    by (simp add: w2_def w1_def)
  finally have "add_geometric_patterns E img colors w =
      (Inr (convert img RGB), w\<lparr>rng_pos := rng_pos w + 2 + 2 * nat v\<rparr>)" .
  moreover have "5 \<le> nat v \<and> nat v \<le> 15" using vr by linarith
  ultimately show ?thesis by blast
qed

text \<open>
  Claim C10. For every input image (of a size that is not negative) and every
  non-empty palette, whenever the choice of the pattern kind in
  \<open>add_geometric_patterns\<close> falls on \<open>triangles\<close> or \<open>lines\<close>, an image is returned,
  of the size of the input, and every pixel of it has the colour of the corresponding
  pixel of the input; for an input of mode \<open>RGB\<close> every \<open>getpixel\<close> reads the same.
  No shape is drawn: each pass composites a fully transparent overlay.
\<close>

theorem add_geometric_patterns_unimplemented_kinds:
  assumes "selects [''circles'', ''rectangles'', ''triangles'', ''lines''] ''triangles'' w
           \<or> selects [''circles'', ''rectangles'', ''triangles'', ''lines''] ''lines'' w"
    and "colors \<noteq> []" and "0 \<le> im_width img" and "0 \<le> im_height img"
  shows "\<exists>img' w'. add_geometric_patterns E img colors w = (Inr img', w') \<and>
           im_width img' = im_width img \<and> im_height img' = im_height img \<and>
           (\<forall>x y. rgb_of (im_px img' x y) = rgb_of (im_px img x y)) \<and>
           (im_mode img = RGB \<longrightarrow> (\<forall>x y. getpixel img' x y = getpixel img x y))"
proof -
  obtain n where "add_geometric_patterns E img colors w =
      (Inr (convert img RGB), w\<lparr>rng_pos := rng_pos w + 2 + 2 * n\<rparr>)"
    using add_geometric_patterns_no_drawing [OF assms] by blast
  moreover have "getpixel (convert img RGB) x y = getpixel img x y" if "im_mode img = RGB" for x y
    using that by (simp add: getpixel_def inside_def convert_def split: prod.splits)
  ultimately show ?thesis by auto
qed

text \<open>
  The theorem at an image of size 4 by 3 whose pixel \<open>(x, y)\<close> is \<open>(x, y, 148)\<close>, with
  the tape that always draws 2, which selects \<open>triangles\<close>.
\<close>

theorem add_geometric_patterns_unimplemented_kinds_witness:
  "(selects [''circles'', ''rectangles'', ''triangles'', ''lines''] ''triangles'' (start_world (\<lambda>_. 2))
    \<or> selects [''circles'', ''rectangles'', ''triangles'', ''lines''] ''lines'' (start_world (\<lambda>_. 2))) \<and>
   [''#4682B4'', ''#87CEEB''] \<noteq> [] \<and>
   (0 :: int) \<le> 4 \<and> (0 :: int) \<le> 3 \<and>
   (\<exists>img' w'.
      add_geometric_patterns plain_env
        \<lparr>im_mode = RGB, im_width = 4, im_height = 3, im_px = (\<lambda>x y. (x, y, 148, 255))\<rparr>
        [''#4682B4'', ''#87CEEB''] (start_world (\<lambda>_. 2)) = (Inr img', w') \<and>
      im_width img' = 4 \<and> im_height img' = 3 \<and>
      (\<forall>x y. rgb_of (im_px img' x y) = (x, y, 148)) \<and>
      getpixel img' 1 2 = Inr [1, 2, 148])"
proof -
  let ?img = "\<lparr>im_mode = RGB, im_width = 4, im_height = 3, im_px = (\<lambda>x y. (x, y, 148, 255))\<rparr>"
  have s: "selects [''circles'', ''rectangles'', ''triangles'', ''lines''] ''triangles'' (start_world (\<lambda>_. 2))
    \<or> selects [''circles'', ''rectangles'', ''triangles'', ''lines''] ''lines'' (start_world (\<lambda>_. 2))"
    by (simp add: selects_def random_choice_def bind_def draw_raw_def ret_def start_world_def)
  have c: "[''#4682B4'', ''#87CEEB''] \<noteq> []" by simp
  have wf: "0 \<le> im_width ?img" "0 \<le> im_height ?img" by simp_all
  have g: "getpixel ?img 1 2 = Inr [1, 2, 148]" by (simp add: getpixel_def inside_def)
  show ?thesis
    using add_geometric_patterns_unimplemented_kinds [OF s c wf, of plain_env] s g
    by (auto simp: rgb_of_def)
qed

section \<open>The pipeline never raises, and \<open>batch_generate\<close>\<close>

lemma catalog_same_keys: "map fst theme_keywords = map fst color_themes"
  by (simp add: theme_keywords_def color_themes_def)

lemma detect_theme_total:
  "\<exists>theme w'. detect_theme prompt w = (Inr theme, w') \<and> theme \<in> set (map fst color_themes)
      \<and> stdout w' = stdout w \<and> files w' = files w \<and> clock_pos w' = clock_pos w \<and> rng w' = rng w"
proof (cases "score_loop theme_keywords (lower prompt) [] = []")
  case True
  let ?xs = "map fst color_themes"
  have ne: "?xs \<noteq> []" by (simp add: color_themes_def)
  have "?xs ! (rng w (rng_pos w) mod length ?xs) \<in> set ?xs"
    using ne by (intro nth_mem) simp
  moreover have "detect_theme prompt w =
      (Inr (?xs ! (rng w (rng_pos w) mod length ?xs)), w\<lparr>rng_pos := Suc (rng_pos w)\<rparr>)"
    using True random_choice_nonempty [OF ne, of w] by (simp add: detect_theme_def Let_def)
  ultimately show ?thesis by simp
next
  case False
  then obtain pre T ks post where d: "theme_keywords = pre @ (T, ks) # post"
    "detect_theme prompt w = (Inr T, w)"
    using detect_theme_scored [of prompt w] by blast
  have "T \<in> set (map fst theme_keywords)" by (subst d(1)) simp
  then show ?thesis using d(2) catalog_same_keys by simp
qed

lemma theme_colors_total:
  "theme \<in> set (map fst color_themes) \<Longrightarrow> \<exists>colors. theme_colors theme = Inr colors"
  by (cases "map_of color_themes theme") (auto simp: theme_colors_def map_of_eq_None_iff)

lemma catch_total:
  assumes "\<And>e w1. \<exists>r w2. h e w1 = (Inr r, w2)"
  shows "\<exists>r w'. catch m h w = (Inr r, w')"
proof (cases "m w")
  case (Pair a w1)
  then show ?thesis using assms by (cases a) (auto simp: catch_def)
qed

lemma generate_image_total:
  "\<exists>r w'. generate_image E prompt width height style w = (Inr r, w')"
proof (cases "prompt = [] \<or> strip prompt = []")
  case True
  then show ?thesis by (auto simp: generate_image_def bind_def print_def ret_def)
next
  case False
  define p where "p = strip prompt"
  define w1 where "w1 = w\<lparr>stdout := stdout w @ [MsgGenerating p]\<rparr>"
  obtain theme w2 where dt: "detect_theme p w1 = (Inr theme, w2)" "theme \<in> set (map fst color_themes)"
    using detect_theme_total [of p w1] by blast
  obtain colors where tc: "theme_colors theme = Inr colors"
    using theme_colors_total [OF dt(2)] by blast
  define w3 where "w3 = w2\<lparr>stdout := stdout w2 @ [MsgTheme theme]\<rparr>"
  obtain style' w4 where st:
    "(if style = ''auto'' then random_choice [''gradient'', ''abstract'', ''geometric''] else ret style) w3
       = (Inr style', w4)"
    by (cases "style = ''auto''") (simp_all add: random_choice_nonempty ret_def)
  define w5 where "w5 = w4\<lparr>stdout := stdout w4 @ [MsgStyle style']\<rparr>"
  have h: "\<exists>r w2. generate_image_except e w1 = (Inr r, w2)" for e w1
    by (simp add: generate_image_except_def bind_def print_def ret_def)
  obtain r w6 where c: "catch (generate_image_try E p theme style' width height colors) generate_image_except w5 = (Inr r, w6)"
    using catch_total [where h = generate_image_except and w = w5
        and m = "generate_image_try E p theme style' width height colors"] h by blast
  show ?thesis
    using False
    unfolding generate_image_def Let_def p_def [symmetric]
    by (simp add: bind_def print_def w1_def [symmetric] dt tc lift_def w3_def [symmetric] st
        w5_def [symmetric] c)
qed

lemma slice_0: "slice xs 0 n = take n xs"
  by (simp add: slice_def)

lemma batch_step_run:
  assumes "i < length prompts"
  shows "\<exists>r. batch_result E prompts width height style w i = Inr r \<and>
           batch_step E width height style (length prompts) (Suc i, prompts ! i) acc
             (batch_world E prompts width height style w i) =
           (Inr (acc @ [r]), batch_world E prompts width height style w (Suc i))"
proof -
  let ?W = "batch_world E prompts width height style w i"
  let ?Wp = "?W\<lparr>stdout := stdout ?W @ [MsgProcessing (Suc i) (length prompts) (take 50 (prompts ! i))]\<rparr>"
  obtain r w' where g: "generate_image E (prompts ! i) width height style ?Wp = (Inr r, w')"
    using generate_image_total by blast
  have "batch_result E prompts width height style w i = Inr r"
    using g by (simp add: batch_result_def)
  moreover have "batch_world E prompts width height style w (Suc i) = w'"
    using g by simp
  ultimately show ?thesis
    using g by (simp add: batch_step_def bind_def print_def slice_0 ret_def)
qed

lemma batch_loop_run:
  assumes "k \<le> length prompts"
  shows "\<exists>rs. length rs = length prompts - k \<and>
           (\<forall>j < length rs. batch_result E prompts width height style w (k + j) = Inr (rs ! j)) \<and>
           for_each (zip [Suc k..<Suc (length prompts)] (drop k prompts))
             (batch_step E width height style (length prompts)) acc
             (batch_world E prompts width height style w k) =
           (Inr (acc @ rs), batch_world E prompts width height style w (length prompts))"
  using assms
proof (induction "length prompts - k" arbitrary: k acc)
  case 0
  then have "k = length prompts" by simp
  then show ?case by (simp add: ret_def)
next
  case (Suc m)
  then have k: "k < length prompts" by simp
  let ?n = "length prompts"
  obtain r where r: "batch_result E prompts width height style w k = Inr r"
    "batch_step E width height style ?n (Suc k, prompts ! k) acc
       (batch_world E prompts width height style w k) =
     (Inr (acc @ [r]), batch_world E prompts width height style w (Suc k))"
    using batch_step_run [OF k] by blast
  have m: "m = ?n - Suc k" using Suc(2) by simp
  obtain rs where rs: "length rs = ?n - Suc k"
    "\<forall>j < length rs. batch_result E prompts width height style w (Suc k + j) = Inr (rs ! j)"
    "for_each (zip [Suc (Suc k)..<Suc ?n] (drop (Suc k) prompts))
       (batch_step E width height style ?n) (acc @ [r])
       (batch_world E prompts width height style w (Suc k)) =
     (Inr ((acc @ [r]) @ rs), batch_world E prompts width height style w ?n)"
    using Suc(1) [OF m, of "acc @ [r]"] k by auto
  have z: "zip [Suc k..<Suc ?n] (drop k prompts) =
      (Suc k, prompts ! k) # zip [Suc (Suc k)..<Suc ?n] (drop (Suc k) prompts)"
    using k by (simp add: upt_conv_Cons Cons_nth_drop_Suc [symmetric])
  have 1: "length (r # rs) = ?n - k" using rs(1) k by simp
  have 2: "\<forall>j < length (r # rs). batch_result E prompts width height style w (k + j) = Inr ((r # rs) ! j)"
  proof (intro allI impI)
    fix j assume "j < length (r # rs)"
    then show "batch_result E prompts width height style w (k + j) = Inr ((r # rs) ! j)"
      using r(1) rs(2) by (cases j) auto
  qed
  have 3: "for_each (zip [Suc k..<Suc ?n] (drop k prompts))
             (batch_step E width height style ?n) acc
             (batch_world E prompts width height style w k) =
           (Inr (acc @ (r # rs)), batch_world E prompts width height style w ?n)"
    unfolding z using rs(3) by (simp add: bind_def r(2))
  show ?case using 1 2 3 by blast
qed

text \<open>
  Claim C6. For every list of prompts and every environment and world,
  \<open>batch_generate\<close> returns a list of results and never raises. The list has one result
  per prompt, in the order of the prompts: the result of index \<open>i\<close> is what the
  single-prompt pipeline \<open>generate_image\<close> returns on the prompt of index \<open>i\<close>, started in
  the world left by the runs on all earlier prompts, whether they succeeded or failed.
  The last message printed is the tally: the number of results that are not \<open>None\<close>,
  out of the number of prompts.
\<close>

theorem batch_generate_one_result_per_prompt:
  "\<exists>results.
     batch_generate E prompts width height style w =
       (Inr results,
        (batch_world E prompts width height style w (length prompts))
          \<lparr>stdout := stdout (batch_world E prompts width height style w (length prompts))
             @ [MsgBatchComplete,
                MsgSuccessful (length (filter (\<lambda>r. r \<noteq> None) results)) (length prompts)]\<rparr>) \<and>
     length results = length prompts \<and>
     (\<forall>i < length prompts. batch_result E prompts width height style w i = Inr (results ! i))"
proof -
  obtain rs where rs: "length rs = length prompts"
    "\<forall>j < length rs. batch_result E prompts width height style w j = Inr (rs ! j)"
    "for_each (zip [Suc 0..<Suc (length prompts)] prompts)
       (batch_step E width height style (length prompts)) []
       (batch_world E prompts width height style w 0) =
     (Inr rs, batch_world E prompts width height style w (length prompts))"
    using batch_loop_run [of 0 prompts E width height style w "[]"] by auto
  have "batch_generate E prompts width height style w =
       (Inr rs,
        (batch_world E prompts width height style w (length prompts))
          \<lparr>stdout := stdout (batch_world E prompts width height style w (length prompts))
             @ [MsgBatchComplete,
                MsgSuccessful (length (filter (\<lambda>r. r \<noteq> None) rs)) (length prompts)]\<rparr>)"
    using rs(3) by (simp add: batch_generate_def Let_def bind_def print_def ret_def)
  then show ?thesis using rs(1,2) by auto
qed

section \<open>The stages after the base image, and the geometric style\<close>

lemma draw_text_size [simp]:
  "im_width (draw_text E img pos txt ink f) = im_width img"
  "im_height (draw_text E img pos txt ink f) = im_height img"
  "im_mode (draw_text E img pos txt ink f) = im_mode img"
  by (simp_all add: draw_text_def)

lemma filter_image_size [simp]:
  "im_width (filter_image E img f) = im_width img"
  "im_height (filter_image E img f) = im_height img"
  "im_mode (filter_image E img f) = im_mode img"
  by (simp_all add: filter_image_def)

lemma draw_caption_run:
  "\<exists>img'. draw_caption E img font caption w = (Inr img', w\<lparr>rng_pos := Suc (rng_pos w)\<rparr>) \<and>
      im_width img' = im_width img \<and> im_height img' = im_height img \<and> im_mode img' = im_mode img \<and>
      (\<exists>pos. img' = draw_text E (draw_text E img (fst pos + 3, snd pos + 3) caption (0, 0, 0, 255) font)
                       pos caption (255, 255, 255, 255) font)"
proof -
  obtain x0 y0 x1 y1 where b: "textbbox E font caption = (x0, y0, x1, y1)"
    by (cases "textbbox E font caption") auto
  define ps where "ps =
            [(im_width img div 2 - (x1 - x0) div 2, 50),
             (im_width img div 2 - (x1 - x0) div 2, im_height img - (y1 - y0) - 50),
             (50, im_height img div 2 - (y1 - y0) div 2),
             (im_width img - (x1 - x0) - 50, im_height img div 2 - (y1 - y0) div 2)]"
  have ne: "ps \<noteq> []" by (simp add: ps_def)
  define pos where "pos = ps ! (rng w (rng_pos w) mod length ps)"
  obtain x y where xy: "pos = (x, y)" by (cases pos)
  have ch: "random_choice ps w = (Inr (x, y), w\<lparr>rng_pos := Suc (rng_pos w)\<rparr>)"
    using random_choice_nonempty [OF ne, of w] by (simp add: pos_def [symmetric] xy)
  define img' where "img' = draw_text E (draw_text E img (x + 3, y + 3) caption (0, 0, 0, 255) font)
                       (x, y) caption (255, 255, 255, 255) font"
  have run: "draw_caption E img font caption w = (Inr img', w\<lparr>rng_pos := Suc (rng_pos w)\<rparr>)"
    unfolding draw_caption_def Let_def b
    by (simp add: ps_def [symmetric] bind_def ch ret_def img'_def)
  have "img' = draw_text E (draw_text E img (fst pos + 3, snd pos + 3) caption (0, 0, 0, 255) font)
                       pos caption (255, 255, 255, 255) font"
    by (simp add: img'_def xy)
  moreover have "im_width img' = im_width img" "im_height img' = im_height img" "im_mode img' = im_mode img"
    by (simp_all add: img'_def)
  ultimately show ?thesis using run by blast
qed

lemma add_text_overlay_run:
  "\<exists>img'. add_text_overlay E img prompt w = (Inr img', w\<lparr>rng_pos := Suc (rng_pos w)\<rparr>) \<and>
      im_width img' = im_width img \<and> im_height img' = im_height img \<and> im_mode img' = im_mode img \<and>
      (\<exists>pos f. img' = draw_text E (draw_text E img (fst pos + 3, snd pos + 3) (display_text prompt) (0, 0, 0, 255) f)
                       pos (display_text prompt) (255, 255, 255, 255) f)"
  unfolding add_text_overlay_def Let_def
  using draw_caption_run [of E img "load_font E [60, 48, 36, 24]" "display_text prompt" w] by blast

lemma apply_artistic_effects_run:
  "\<exists>f. apply_artistic_effects E img w = (Inr (filter_image E img f), w\<lparr>rng_pos := Suc (rng_pos w)\<rparr>)"
proof -
  let ?xs = "[''blur'', ''sharpen'', ''emboss'', ''edge_enhance'', ''smooth'']"
  define k where "k = rng w (rng_pos w) mod length ?xs"
  have ch: "random_choice ?xs w = (Inr (?xs ! k), w\<lparr>rng_pos := Suc (rng_pos w)\<rparr>)"
    unfolding k_def by (rule random_choice_nonempty) simp
  have run: "apply_artistic_effects E img w =
      (Inr (if ?xs ! k = ''blur'' then filter_image E img (GaussianBlur 1)
            else if ?xs ! k = ''sharpen'' then filter_image E img SHARPEN
            else if ?xs ! k = ''emboss'' then filter_image E img EMBOSS
            else if ?xs ! k = ''edge_enhance'' then filter_image E img EDGE_ENHANCE
            else if ?xs ! k = ''smooth'' then filter_image E img SMOOTH
            else img), w\<lparr>rng_pos := Suc (rng_pos w)\<rparr>)"
    unfolding apply_artistic_effects_def by (simp only: bind_def ch ret_def prod.case sum.case)
  have "k < 5" unfolding k_def by simp
  then consider "k = 0" | "k = 1" | "k = 2" | "k = 3" | "k = 4" by linarith
  then show ?thesis
  proof cases
    case 1
    show ?thesis unfolding run 1 by (rule exI [of _ "GaussianBlur 1"]) simp
  next
    case 2
    show ?thesis unfolding run 2 by (rule exI [of _ SHARPEN]) simp
  next
    case 3
    show ?thesis unfolding run 3 by (rule exI [of _ EMBOSS]) simp
  next
    case 4
    show ?thesis unfolding run 4 by (rule exI [of _ EDGE_ENHANCE]) simp
  next
    case 5
    show ?thesis unfolding run 5 by (rule exI [of _ SMOOTH]) simp
  qed
qed

lemma selects_index:
  "xs \<noteq> [] \<Longrightarrow> selects xs v w \<longleftrightarrow> xs ! (rng w (rng_pos w) mod length xs) = v"
  by (simp add: selects_def random_choice_nonempty)

lemma render_geometric_no_drawing:
  assumes sel: "selects [''circles'', ''rectangles'', ''triangles'', ''lines''] ''triangles'' w
              \<or> selects [''circles'', ''rectangles'', ''triangles'', ''lines''] ''lines'' w"
    and c: "rest \<noteq> []" "valid_hex c0" and wf: "0 \<le> width" "0 \<le> height"
  shows "\<exists>n pos f flt. 5 \<le> n \<and> n \<le> 15 \<and>
           render E prompt ''geometric'' width height (c0 # rest) w =
             (Inr (filter_image E
                     (draw_text E
                        (draw_text E
                           \<lparr>im_mode = RGB, im_width = width, im_height = height,
                              im_px = (\<lambda>x y. ink3 (rgb_triple c0))\<rparr>
                           (fst pos + 3, snd pos + 3) (display_text prompt) (0, 0, 0, 255) f)
                        pos (display_text prompt) (255, 255, 255, 255) f)
                     flt),
              w\<lparr>rng_pos := rng_pos w + 4 + 2 * n\<rparr>)"
proof -
  define bg where "bg = \<lparr>im_mode = RGB, im_width = width, im_height = height,
                              im_px = (\<lambda>x y. ink3 (rgb_triple c0))\<rparr>"
  have new: "Image_new RGB width height (ink3 (rgb_triple c0)) = Inr bg"
    using wf by (simp add: Image_new_def bg_def)
  have cb: "convert bg RGB = bg"
    by (cases "rgb_triple c0") (simp add: convert_def bg_def ink3_def)
  have wfb: "0 \<le> im_width bg" "0 \<le> im_height bg" using wf by (simp_all add: bg_def)
  obtain n where n: "5 \<le> n" "n \<le> 15"
    "add_geometric_patterns E bg rest w = (Inr bg, w\<lparr>rng_pos := rng_pos w + 2 + 2 * n\<rparr>)"
    using add_geometric_patterns_no_drawing [OF sel c(1) wfb, of E] cb by auto
  define w1 where "w1 = w\<lparr>rng_pos := rng_pos w + 2 + 2 * n\<rparr>"
  have base: "base_image E ''geometric'' width height (c0 # rest) w = (Inr bg, w1)"
    unfolding base_image_def
    by (simp add: nth_py_def hex_rgb_valid [OF c(2)] new n(3) w1_def)
  obtain img1 pos f where t: "add_text_overlay E bg prompt w1 = (Inr img1, w1\<lparr>rng_pos := Suc (rng_pos w1)\<rparr>)"
    "img1 = draw_text E (draw_text E bg (fst pos + 3, snd pos + 3) (display_text prompt) (0, 0, 0, 255) f)
                       pos (display_text prompt) (255, 255, 255, 255) f"
    using add_text_overlay_run [of E bg prompt w1] by blast
  define w2 where "w2 = w1\<lparr>rng_pos := Suc (rng_pos w1)\<rparr>"
  obtain flt where e: "apply_artistic_effects E img1 w2 = (Inr (filter_image E img1 flt), w2\<lparr>rng_pos := Suc (rng_pos w2)\<rparr>)"
    using apply_artistic_effects_run [of E img1 w2] by blast
  have w3: "w2\<lparr>rng_pos := Suc (rng_pos w2)\<rparr> = w\<lparr>rng_pos := rng_pos w + 4 + 2 * n\<rparr>"
    by (simp add: w2_def w1_def)
  have "render E prompt ''geometric'' width height (c0 # rest) w =
      (Inr (filter_image E img1 flt), w\<lparr>rng_pos := rng_pos w + 4 + 2 * n\<rparr>)"
    unfolding render_def by (simp add: bind_def base t(1) w2_def [symmetric] e w3)
  then show ?thesis using n(1,2) t(2) unfolding bg_def by blast
qed

lemma plain_env_no_text [simp]: "draw_text plain_env img pos txt ink f = img"
  by (simp add: draw_text_def plain_env_def)

lemma plain_env_no_filter [simp]: "filter_image plain_env img f = img"
  by (simp add: filter_image_def plain_env_def)

lemma generate_image_try_geometric_plain:
  assumes sel: "rng w (rng_pos w) mod 4 = 2 \<or> rng w (rng_pos w) mod 4 = 3"
    and c: "rest \<noteq> []" "valid_hex c0" and pos: "0 < width" "0 < height"
  shows "\<exists>n. 5 \<le> n \<and> n \<le> 15 \<and>
           generate_image_try plain_env prompt theme ''geometric'' width height (c0 # rest) w =
             (Inr (Some ''generated_images/local_generated_geometric_20250704_120000.png''),
              w\<lparr>rng_pos := rng_pos w + 4 + 2 * n,
                 clock_pos := Suc (clock_pos w),
                 files := (files w)(''generated_images/local_generated_geometric_20250704_120000.png'' \<mapsto>
                    \<lparr>im_mode = RGB, im_width = width, im_height = height,
                       im_px = (\<lambda>x y. ink3 (rgb_triple c0))\<rparr>),
                 stdout := stdout w @ [MsgSuccess,
                    MsgSaved ''generated_images/local_generated_geometric_20250704_120000.png'',
                    MsgThemeStyle theme ''geometric'']\<rparr>)"
proof -
  let ?ps = "[''circles'', ''rectangles'', ''triangles'', ''lines'']"
  have s: "selects ?ps ''triangles'' w \<or> selects ?ps ''lines'' w"
    using sel by (auto simp: selects_index)
  have wf: "0 \<le> width" "0 \<le> height" using pos by simp_all
  obtain n where n: "5 \<le> n" "n \<le> 15"
    "render plain_env prompt ''geometric'' width height (c0 # rest) w =
      (Inr \<lparr>im_mode = RGB, im_width = width, im_height = height, im_px = (\<lambda>x y. ink3 (rgb_triple c0))\<rparr>,
       w\<lparr>rng_pos := rng_pos w + 4 + 2 * n\<rparr>)"
    using render_geometric_no_drawing [OF s c wf, of plain_env prompt] by auto
  have p: "path_join (output_dir plain_env) ''local_generated_geometric_20250704_120000.png''
      = ''generated_images/local_generated_geometric_20250704_120000.png''"
    by (simp add: path_join_def plain_env_def)
  have nw: "now plain_env k = ''20250704_120000''" for k by (simp add: plain_env_def)
  have sv: "save_ok plain_env q" for q by (simp add: plain_env_def)
  have "generate_image_try plain_env prompt theme ''geometric'' width height (c0 # rest) w =
             (Inr (Some ''generated_images/local_generated_geometric_20250704_120000.png''),
              w\<lparr>rng_pos := rng_pos w + 4 + 2 * n,
                 clock_pos := Suc (clock_pos w),
                 files := (files w)(''generated_images/local_generated_geometric_20250704_120000.png'' \<mapsto>
                    \<lparr>im_mode = RGB, im_width = width, im_height = height,
                       im_px = (\<lambda>x y. ink3 (rgb_triple c0))\<rparr>),
                 stdout := stdout w @ [MsgSuccess,
                    MsgSaved ''generated_images/local_generated_geometric_20250704_120000.png'',
                    MsgThemeStyle theme ''geometric'']\<rparr>)"
    unfolding generate_image_try_def Let_def
    using pos by (simp add: bind_def n(3) timestamp_now_def nw p save_def sv print_def ret_def)
  then show ?thesis using n(1,2) by blast
qed

lemma generate_image_geometric_plain:
  assumes p: "strip prompt \<noteq> []"
    and dt: "\<And>w. detect_theme (strip prompt) w = (Inr theme, w)"
    and tc: "theme_colors theme = Inr (c0 # rest)"
    and c: "rest \<noteq> []" "valid_hex c0" and pos: "0 < width" "0 < height"
    and sel: "rng w (rng_pos w) mod 4 = 2 \<or> rng w (rng_pos w) mod 4 = 3"
  shows "\<exists>n. 5 \<le> n \<and> n \<le> 15 \<and>
           generate_image plain_env prompt width height ''geometric'' w =
             (Inr (Some ''generated_images/local_generated_geometric_20250704_120000.png''),
              w\<lparr>rng_pos := rng_pos w + 4 + 2 * n,
                 clock_pos := Suc (clock_pos w),
                 files := (files w)(''generated_images/local_generated_geometric_20250704_120000.png'' \<mapsto>
                    \<lparr>im_mode = RGB, im_width = width, im_height = height,
                       im_px = (\<lambda>x y. ink3 (rgb_triple c0))\<rparr>),
                 stdout := stdout w @ [MsgGenerating (strip prompt), MsgTheme theme, MsgStyle ''geometric'',
                    MsgSuccess,
                    MsgSaved ''generated_images/local_generated_geometric_20250704_120000.png'',
                    MsgThemeStyle theme ''geometric'']\<rparr>)"
proof -
  define w3 where "w3 = w\<lparr>stdout := stdout w @ [MsgGenerating (strip prompt), MsgTheme theme, MsgStyle ''geometric'']\<rparr>"
  have s3: "rng w3 (rng_pos w3) mod 4 = 2 \<or> rng w3 (rng_pos w3) mod 4 = 3"
    using sel by (simp add: w3_def)
  obtain n where n: "5 \<le> n" "n \<le> 15"
    "generate_image_try plain_env (strip prompt) theme ''geometric'' width height (c0 # rest) w3 =
             (Inr (Some ''generated_images/local_generated_geometric_20250704_120000.png''),
              w3\<lparr>rng_pos := rng_pos w3 + 4 + 2 * n,
                 clock_pos := Suc (clock_pos w3),
                 files := (files w3)(''generated_images/local_generated_geometric_20250704_120000.png'' \<mapsto>
                    \<lparr>im_mode = RGB, im_width = width, im_height = height,
                       im_px = (\<lambda>x y. ink3 (rgb_triple c0))\<rparr>),
                 stdout := stdout w3 @ [MsgSuccess,
                    MsgSaved ''generated_images/local_generated_geometric_20250704_120000.png'',
                    MsgThemeStyle theme ''geometric'']\<rparr>)"
    using generate_image_try_geometric_plain [OF s3 c pos, of "strip prompt" theme] by blast
  have ne: "prompt \<noteq> []" using p by (auto simp: strip_def)
  have "generate_image plain_env prompt width height ''geometric'' w =
      catch (generate_image_try plain_env (strip prompt) theme ''geometric'' width height (c0 # rest))
        generate_image_except w3"
    unfolding generate_image_def Let_def using p ne
    by (simp add: bind_def print_def dt tc lift_def ret_def w3_def)
  also have "\<dots> = (Inr (Some ''generated_images/local_generated_geometric_20250704_120000.png''),
              w3\<lparr>rng_pos := rng_pos w3 + 4 + 2 * n,
                 clock_pos := Suc (clock_pos w3),
                 files := (files w3)(''generated_images/local_generated_geometric_20250704_120000.png'' \<mapsto>
                    \<lparr>im_mode = RGB, im_width = width, im_height = height,
                       im_px = (\<lambda>x y. ink3 (rgb_triple c0))\<rparr>),
                 stdout := stdout w3 @ [MsgSuccess,
                    MsgSaved ''generated_images/local_generated_geometric_20250704_120000.png'',
                    MsgThemeStyle theme ''geometric'']\<rparr>)"
    by (simp add: catch_def n(3))
  finally show ?thesis using n(1,2) by (auto simp: w3_def)
qed

lemma detect_theme_ocean: "detect_theme ''ocean'' w = (Inr ''ocean'', w)"
proof (rule detect_theme_clean_words)
  show "(''ocean'', [''ocean'', ''sea'', ''water'', ''wave'', ''beach'', ''blue'']) \<in> set theme_keywords"
    by (simp add: theme_keywords_def)
  have s: "split_ws ''ocean'' = [''ocean'']" by code_simp
  show "split_ws ''ocean'' \<noteq> []" unfolding s by simp
  show "\<forall>w \<in> set (split_ws ''ocean''). w \<in> set [''ocean'', ''sea'', ''water'', ''wave'', ''beach'', ''blue'']"
    unfolding s by simp
  show "\<forall>w \<in> set (split_ws ''ocean''). \<forall>(t', ks') \<in> set theme_keywords.
          t' \<noteq> ''ocean'' \<longrightarrow> (\<forall>k \<in> set ks'. \<not> is_substring k w)"
    by code_simp
qed

lemma detect_theme_fire: "detect_theme ''fire'' w = (Inr ''fire'', w)"
proof (rule detect_theme_clean_words)
  show "(''fire'', [''fire'', ''flame'', ''hot'', ''red'', ''burning'']) \<in> set theme_keywords"
    by (simp add: theme_keywords_def)
  have s: "split_ws ''fire'' = [''fire'']" by code_simp
  show "split_ws ''fire'' \<noteq> []" unfolding s by simp
  show "\<forall>w \<in> set (split_ws ''fire''). w \<in> set [''fire'', ''flame'', ''hot'', ''red'', ''burning'']"
    unfolding s by simp
  show "\<forall>w \<in> set (split_ws ''fire''). \<forall>(t', ks') \<in> set theme_keywords.
          t' \<noteq> ''fire'' \<longrightarrow> (\<forall>k \<in> set ks'. \<not> is_substring k w)"
    by code_simp
qed

lemma ocean_palette:
  "theme_colors ''ocean'' = Inr (''#006994'' # [''#4682B4'', ''#87CEEB'', ''#1E90FF'', ''#00CED1''])"
  "valid_hex ''#006994''" "ink3 (rgb_triple ''#006994'') = (0, 105, 148, 255)"
  "strip ''ocean'' = ''ocean''"
  by code_simp+

lemma fire_palette:
  "theme_colors ''fire'' = Inr (''#FF4500'' # [''#FF6347'', ''#FF8C00'', ''#FFD700'', ''#DC143C''])"
  "valid_hex ''#FF4500''" "ink3 (rgb_triple ''#FF4500'') = (255, 69, 0, 255)"
  "strip ''fire'' = ''fire''"
  by code_simp+

text \<open>
  Claim C5 at an input where the code does not do what the claim says. With the style
  \<open>geometric\<close>, the prompt \<open>ocean\<close> and a random generator whose first choice is the
  pattern kind \<open>triangles\<close>, the image written (here with a text renderer and filters
  that change no pixel) is the background colour \<open>(0, 105, 148)\<close> of the palette at
  every pixel: no shape has been overlaid, although between 5 and 15 transparent
  overlays were composited.
\<close>

theorem generate_image_geometric_triangles_draws_nothing:
  "\<exists>w' img.
     generate_image plain_env ''ocean'' 800 600 ''geometric'' (start_world (\<lambda>_. 2)) =
       (Inr (Some ''generated_images/local_generated_geometric_20250704_120000.png''), w') \<and>
     selects [''circles'', ''rectangles'', ''triangles'', ''lines''] ''triangles'' (start_world (\<lambda>_. 2)) \<and>
     files w' ''generated_images/local_generated_geometric_20250704_120000.png'' = Some img \<and>
     im_width img = 800 \<and> im_height img = 600 \<and>
     (\<forall>x y. rgb_of (im_px img x y) = (0, 105, 148))"
proof -
  have sel: "rng (start_world (\<lambda>_. 2)) (rng_pos (start_world (\<lambda>_. 2))) mod 4 = 2
      \<or> rng (start_world (\<lambda>_. 2)) (rng_pos (start_world (\<lambda>_. 2))) mod 4 = 3"
    by (simp add: start_world_def)
  have s: "selects [''circles'', ''rectangles'', ''triangles'', ''lines''] ''triangles'' (start_world (\<lambda>_. 2))"
    by (simp add: selects_index start_world_def)
  have p: "strip ''ocean'' \<noteq> []" by (simp add: ocean_palette(4))
  obtain n where "generate_image plain_env ''ocean'' 800 600 ''geometric'' (start_world (\<lambda>_. 2)) =
             (Inr (Some ''generated_images/local_generated_geometric_20250704_120000.png''),
              (start_world (\<lambda>_. 2))\<lparr>rng_pos := rng_pos (start_world (\<lambda>_. 2)) + 4 + 2 * n,
                 clock_pos := Suc (clock_pos (start_world (\<lambda>_. 2))),
                 files := (files (start_world (\<lambda>_. 2)))(''generated_images/local_generated_geometric_20250704_120000.png'' \<mapsto>
                    \<lparr>im_mode = RGB, im_width = 800, im_height = 600,
                       im_px = (\<lambda>x y. ink3 (rgb_triple ''#006994''))\<rparr>),
                 stdout := stdout (start_world (\<lambda>_. 2)) @ [MsgGenerating (strip ''ocean''), MsgTheme ''ocean'', MsgStyle ''geometric'',
                    MsgSuccess,
                    MsgSaved ''generated_images/local_generated_geometric_20250704_120000.png'',
                    MsgThemeStyle ''ocean'' ''geometric'']\<rparr>)"
    using generate_image_geometric_plain [OF p _ ocean_palette(1) _ ocean_palette(2) _ _ sel, of 800 600]
      detect_theme_ocean ocean_palette(4) by auto
  then show ?thesis using s by (simp add: ocean_palette(3) rgb_of_def)
qed

text \<open>
  The theorem on a batch of a valid, a blank and a valid prompt: three results, the
  second a failure, and the tally 2 of 3.
\<close>

theorem batch_generate_one_result_per_prompt_witness:
  "\<exists>results.
     batch_generate plain_env [''ocean'', ''   '', ''fire''] 800 600 ''geometric'' (start_world (\<lambda>_. 2)) =
       (Inr results,
        (batch_world plain_env [''ocean'', ''   '', ''fire''] 800 600 ''geometric'' (start_world (\<lambda>_. 2)) 3)
          \<lparr>stdout := stdout (batch_world plain_env [''ocean'', ''   '', ''fire''] 800 600 ''geometric'' (start_world (\<lambda>_. 2)) 3)
             @ [MsgBatchComplete, MsgSuccessful 2 3]\<rparr>) \<and>
     results = [Some ''generated_images/local_generated_geometric_20250704_120000.png'', None,
                Some ''generated_images/local_generated_geometric_20250704_120000.png'']"
proof -
  let ?ps = "[''ocean'', ''   '', ''fire'']"
  let ?path = "''generated_images/local_generated_geometric_20250704_120000.png''"
  let ?w = "start_world (\<lambda>_. 2)"
  let ?W = "batch_world plain_env ?ps 800 600 ''geometric'' ?w"
  let ?R = "batch_result plain_env ?ps 800 600 ''geometric'' ?w"
  obtain results where r: "batch_generate plain_env ?ps 800 600 ''geometric'' ?w =
       (Inr results,
        (?W (length ?ps))\<lparr>stdout := stdout (?W (length ?ps))
             @ [MsgBatchComplete, MsgSuccessful (length (filter (\<lambda>r. r \<noteq> None) results)) (length ?ps)]\<rparr>)"
    "length results = length ?ps"
    "\<forall>i < length ?ps. ?R i = Inr (results ! i)"
    using batch_generate_one_result_per_prompt [of plain_env ?ps 800 600 "''geometric''" ?w] by blast
  have gen: "\<exists>w'. generate_image plain_env ''ocean'' 800 600 ''geometric'' w = (Inr (Some ?path), w') \<and> rng w' = (\<lambda>_. 2)"
    if "rng w = (\<lambda>_. 2)" for w
  proof -
    have p: "strip ''ocean'' \<noteq> []" by (simp add: ocean_palette(4))
    have sel: "rng w (rng_pos w) mod 4 = 2 \<or> rng w (rng_pos w) mod 4 = 3" using that by simp
    show ?thesis
      using generate_image_geometric_plain [OF p _ ocean_palette(1) _ ocean_palette(2) _ _ sel, of 800 600]
        detect_theme_ocean ocean_palette(4) that by auto
  qed
  have gen3: "\<exists>w'. generate_image plain_env ''fire'' 800 600 ''geometric'' w = (Inr (Some ?path), w') \<and> rng w' = (\<lambda>_. 2)"
    if "rng w = (\<lambda>_. 2)" for w
  proof -
    have p: "strip ''fire'' \<noteq> []" by (simp add: fire_palette(4))
    have sel: "rng w (rng_pos w) mod 4 = 2 \<or> rng w (rng_pos w) mod 4 = 3" using that by simp
    show ?thesis
      using generate_image_geometric_plain [OF p _ fire_palette(1) _ fire_palette(2) _ _ sel, of 800 600]
        detect_theme_fire fire_palette(4) that by auto
  qed
  have b: "blank ''   ''" by code_simp
  note [simp del] = batch_world.simps(2)
  have step: "?W (Suc i) = w' \<and> ?R i = r"
    if "generate_image plain_env (?ps ! i) 800 600 ''geometric''
          ((?W i)\<lparr>stdout := stdout (?W i) @ [MsgProcessing (Suc i) (length ?ps) (take 50 (?ps ! i))]\<rparr>) = (r, w')"
    for i r w'
    using that by (simp add: batch_result_def batch_world.simps(2))
  define P0 where "P0 = (?W 0)\<lparr>stdout := stdout (?W 0) @ [MsgProcessing (Suc 0) (length ?ps) (take 50 (?ps ! 0))]\<rparr>"
  have "rng P0 = (\<lambda>_. 2)" by (simp add: P0_def start_world_def)
  then obtain w1 where g0: "generate_image plain_env ''ocean'' 800 600 ''geometric'' P0 = (Inr (Some ?path), w1)"
    "rng w1 = (\<lambda>_. 2)" using gen by blast
  have s0: "?W (Suc 0) = w1" "?R 0 = Inr (Some ?path)"
    using step [of 0 "Inr (Some ?path)" w1] g0(1) unfolding P0_def by simp_all
  define P1 where "P1 = (?W (Suc 0))\<lparr>stdout := stdout (?W (Suc 0)) @ [MsgProcessing (Suc (Suc 0)) (length ?ps) (take 50 (?ps ! Suc 0))]\<rparr>"
  have rP1: "rng P1 = (\<lambda>_. 2)" unfolding P1_def s0(1) using g0(2) by simp
  have g1: "generate_image plain_env ''   '' 800 600 ''geometric'' P1 = (Inr None, P1\<lparr>stdout := stdout P1 @ [MsgEmptyPrompt]\<rparr>)"
    using strip_blank [OF b] by (simp add: generate_image_def bind_def print_def ret_def)
  have s1: "?W (Suc (Suc 0)) = P1\<lparr>stdout := stdout P1 @ [MsgEmptyPrompt]\<rparr>" "?R (Suc 0) = Inr None"
    using step [of "Suc 0" "Inr None" "P1\<lparr>stdout := stdout P1 @ [MsgEmptyPrompt]\<rparr>"] g1 unfolding P1_def by simp_all
  define P2 where "P2 = (?W (Suc (Suc 0)))\<lparr>stdout := stdout (?W (Suc (Suc 0)))
      @ [MsgProcessing (Suc (Suc (Suc 0))) (length ?ps) (take 50 (?ps ! Suc (Suc 0)))]\<rparr>"
  have "rng P2 = (\<lambda>_. 2)" unfolding P2_def s1(1) using rP1 by simp
  then obtain w3 where g2: "generate_image plain_env ''fire'' 800 600 ''geometric'' P2 = (Inr (Some ?path), w3)"
    using gen3 by blast
  have s2: "?R (Suc (Suc 0)) = Inr (Some ?path)"
    using step [of "Suc (Suc 0)" "Inr (Some ?path)" w3] g2 unfolding P2_def by simp
  have "results ! 0 = Some ?path" "results ! Suc 0 = None" "results ! Suc (Suc 0) = Some ?path"
    using r(3) s0(2) s1(2) s2 by auto
  then have res: "results = [Some ?path, None, Some ?path]"
    using r(2) by (intro nth_equalityI) (auto simp: nth_Cons' less_Suc_eq numeral_3_eq_3 numeral_2_eq_2)
  have l: "length ?ps = 3" "length (filter (\<lambda>r. r \<noteq> None) [Some ?path, None, Some ?path]) = 2"
    by simp_all
  show ?thesis using r(1) unfolding res l by blast
qed

section \<open>The radial gradient on the image of one pixel\<close>

lemma rounding_0: "rounding f \<Longrightarrow> f 0 = 0"
  using rounding_int [of f 0] by simp

lemma gradient_1x1_radial:
  assumes f: "rounding (fl E)"
    and sel: "selects [''horizontal'', ''vertical'', ''diagonal'', ''radial''] ''radial'' w"
  shows "generate_gradient_background E 1 1 colors w =
           (Inl ZeroDivisionError, w\<lparr>rng_pos := Suc (rng_pos w)\<rparr>)"
proof -
  let ?ks = "[''horizontal'', ''vertical'', ''diagonal'', ''radial'']"
  have ch: "random_choice ?ks w = (Inr ''radial'', w\<lparr>rng_pos := Suc (rng_pos w)\<rparr>)"
    using sel random_choice_nonempty [of ?ks w] by (simp add: selects_def)
  have z: "fl E 0 = 0" using rounding_0 [OF f] .
  have m: "math_sqrt E 0 = Inr 0" by (simp add: math_sqrt_def z)
  have r: "radial_step E 0 0 0 colors 0 0 img = Inl ZeroDivisionError" for img
    by (simp add: radial_step_def m float_div_def)
  have pr: "py_range 1 = [0]" by (simp add: py_range_def)
  show ?thesis
    unfolding generate_gradient_background_def
    by (simp add: Image_new_def bind_def ch Let_def m pr r lift_def raise_def)
qed

text \<open>
  Claim C3 at an input where the code does not do what the claim says. For the size 1
  by 1 and the gradient kind \<open>radial\<close>, whatever the colours: the centre is \<open>(0, 0)\<close>,
  \<open>max_distance\<close> is \<open>0.0\<close>, and the division \<open>distance / max_distance\<close> at the only
  pixel raises ZeroDivisionError. No raster is returned.
\<close>

theorem generate_gradient_background_1x1_radial:
  assumes "rounding (fl E)"
    and "selects [''horizontal'', ''vertical'', ''diagonal'', ''radial''] ''radial'' w"
  shows "fst (generate_gradient_background E 1 1 colors w) = Inl ZeroDivisionError"
  using gradient_1x1_radial [OF assms] by simp

text \<open>
  The theorem with exact arithmetic and the tape that always draws 3, which selects
  \<open>radial\<close>.
\<close>

theorem generate_gradient_background_1x1_radial_witness:
  "rounding (fl plain_env) \<and>
   selects [''horizontal'', ''vertical'', ''diagonal'', ''radial''] ''radial'' (start_world (\<lambda>_. 3)) \<and>
   fst (generate_gradient_background plain_env 1 1 [''#006994'', ''#4682B4''] (start_world (\<lambda>_. 3)))
     = Inl ZeroDivisionError"
proof -
  have s: "selects [''horizontal'', ''vertical'', ''diagonal'', ''radial''] ''radial'' (start_world (\<lambda>_. 3))"
    by (simp add: selects_index start_world_def)
  show ?thesis
    using generate_gradient_background_1x1_radial [OF rounding_plain s] rounding_plain s by simp
qed

text \<open>
  The same division seen from \<open>generate_image\<close>. For the prompt \<open>ocean\<close>, the size 1
  by 1 and the style \<open>gradient\<close>, when the gradient kind drawn is \<open>radial\<close>: the
  ZeroDivisionError of \<open>generate_gradient_background\<close> is caught, \<open>generate_image\<close>
  prints the error and returns \<open>None\<close>, and no file is written.
\<close>

lemma generate_image_1x1_radial_no_raster:
  assumes "rounding (fl E)"
    and "selects [''horizontal'', ''vertical'', ''diagonal'', ''radial''] ''radial'' w"
  shows "generate_image E ''ocean'' 1 1 ''gradient'' w =
           (Inr None,
            w\<lparr>rng_pos := Suc (rng_pos w),
               stdout := stdout w @ [MsgGenerating ''ocean'', MsgTheme ''ocean'', MsgStyle ''gradient'',
                                     MsgError ZeroDivisionError]\<rparr>)"
proof -
  define w3 where "w3 = w\<lparr>stdout := stdout w @ [MsgGenerating ''ocean'', MsgTheme ''ocean'', MsgStyle ''gradient'']\<rparr>"
  have s3: "selects [''horizontal'', ''vertical'', ''diagonal'', ''radial''] ''radial'' w3"
    using assms(2) by (simp add: selects_index w3_def)
  have g: "generate_gradient_background E 1 1 colors w3 =
      (Inl ZeroDivisionError, w3\<lparr>rng_pos := Suc (rng_pos w3)\<rparr>)" for colors
    using gradient_1x1_radial [OF assms(1) s3] .
  have t: "generate_image_try E ''ocean'' ''ocean'' ''gradient'' 1 1 colors w3 =
      (Inl ZeroDivisionError, w3\<lparr>rng_pos := Suc (rng_pos w3)\<rparr>)" for colors
    unfolding generate_image_try_def render_def base_image_def by (simp add: bind_def g)
  have "generate_image E ''ocean'' 1 1 ''gradient'' w =
      catch (generate_image_try E ''ocean'' ''ocean'' ''gradient'' 1 1
               [''#006994'', ''#4682B4'', ''#87CEEB'', ''#1E90FF'', ''#00CED1''])
        generate_image_except w3"
    unfolding generate_image_def Let_def
    by (simp add: ocean_palette bind_def print_def detect_theme_ocean lift_def ret_def w3_def)
  also have "\<dots> = (Inr None, w3\<lparr>rng_pos := Suc (rng_pos w3),
       stdout := stdout w3 @ [MsgError ZeroDivisionError]\<rparr>)"
    by (simp add: catch_def t generate_image_except_def bind_def print_def ret_def)
  finally show ?thesis by (simp add: w3_def)
qed

section \<open>Every stage keeps the size of the image\<close>

text \<open>A property kept by every pass of a loop body is kept by the loop.\<close>

lemma for_each_invariant:
  assumes step: "\<And>i s w s' w'. P s \<Longrightarrow> body i s w = (Inr s', w') \<Longrightarrow> P s'"
  shows "P s \<Longrightarrow> for_each xs body s w = (Inr s', w') \<Longrightarrow> P s'"
proof (induction xs arbitrary: s w)
  case Nil
  then show ?case by (simp add: ret_def)
next
  case (Cons i xs)
  show ?case
  proof (cases "body i s w")
    case (Pair r w1)
    show ?thesis
    proof (cases r)
      case (Inl e)
      then show ?thesis using Cons.prems(2) Pair by (simp add: bind_def)
    next
      case (Inr s1)
      have "P s1" using step [OF Cons.prems(1)] Pair Inr by simp
      moreover have "for_each xs body s1 w1 = (Inr s', w')"
        using Cons.prems(2) Pair Inr by (simp add: bind_def)
      ultimately show ?thesis by (rule Cons.IH)
    qed
  qed
qed

lemma lift_Inr_iff: "lift r w = (Inr x, w') \<longleftrightarrow> r = Inr x \<and> w' = w"
  by (auto simp: lift_def)

lemma bind_Inr_iff:
  "bind m f w = (Inr y, w') \<longleftrightarrow> (\<exists>x w1. m w = (Inr x, w1) \<and> f x w1 = (Inr y, w'))"
proof (cases "m w")
  case (Pair r w1)
  then show ?thesis by (cases r) (auto simp: bind_def)
qed

text \<open>The drawing operations, the filters and the mode conversions keep the size.\<close>

lemma paint_sized [simp]: "sized w h (paint im sh ink) = sized w h im"
  by (simp add: sized_def paint_def)

lemma sized_simps [simp]:
  "sized w h (draw_point im p ink) = sized w h im"
  "sized w h (draw_line E im p q ink) = sized w h im"
  "sized w h (draw_polygon E im pts ink) = sized w h im"
  "sized w h (draw_text E im pos txt ink f) = sized w h im"
  "sized w h (filter_image E im flt) = sized w h im"
  "sized w h (convert im m) = sized w h im"
  by (simp_all add: draw_point_def draw_line_def draw_polygon_def split: prod.splits)
     (simp_all add: sized_def)

lemma draw_rectangle_sized: "draw_rectangle im box ink = Inr im' \<Longrightarrow> sized w h im' = sized w h im"
  by (auto simp: draw_rectangle_def split: prod.splits if_splits)

lemma draw_ellipse_sized: "draw_ellipse E im box ink = Inr im' \<Longrightarrow> sized w h im' = sized w h im"
  by (auto simp: draw_ellipse_def split: prod.splits if_splits)

lemma Image_new_sized: "Image_new m w h c = Inr im \<Longrightarrow> sized w h im"
  by (auto simp: Image_new_def sized_def split: if_splits)

lemma composite_onto_sized: "composite_onto im ov = Inr im' \<Longrightarrow> sized w h im' = sized w h im"
  by (auto simp: composite_onto_def alpha_composite_def sized_def convert_def split: sum.splits if_splits)

lemma gradient_steps_sized:
  "horizontal_step E width height colors x im = Inr im' \<Longrightarrow> sized w h im' = sized w h im"
  "vertical_step E width height colors y im = Inr im' \<Longrightarrow> sized w h im' = sized w h im"
  "diagonal_step E width height colors y x im = Inr im' \<Longrightarrow> sized w h im' = sized w h im"
  "radial_step E cx cy md colors y x im = Inr im' \<Longrightarrow> sized w h im' = sized w h im"
  by (auto simp: horizontal_step_def vertical_step_def diagonal_step_def radial_step_def
      split: sum.splits)


lemma for_each_lift_sized:
  assumes st: "\<And>i im im'. step i im = Inr im' \<Longrightarrow> sized a b im' = sized a b im"
    and run: "for_each xs (\<lambda>i im. lift (step i im)) im w = (Inr im', w')" and s: "sized a b im"
  shows "sized a b im'"
proof (rule for_each_invariant [where P = "sized a b" and body = "\<lambda>i im. lift (step i im)", OF _ s run])
  fix i s w s' w'
  assume "sized a b s" "lift (step i s) w = (Inr s', w')"
  then show "sized a b s'" using st [of i s s'] by (simp add: lift_Inr_iff)
qed

lemma for_each_nested_sized:
  assumes st: "\<And>j i im im'. step j i im = Inr im' \<Longrightarrow> sized a b im' = sized a b im"
    and run: "for_each ys (\<lambda>j im. for_each xs (\<lambda>i im. lift (step j i im)) im) im w = (Inr im', w')"
    and s: "sized a b im"
  shows "sized a b im'"
proof (rule for_each_invariant [where P = "sized a b"
      and body = "\<lambda>j im. for_each xs (\<lambda>i im. lift (step j i im)) im", OF _ s run])
  fix j s w s' w'
  assume "sized a b s" "for_each xs (\<lambda>i im. lift (step j i im)) s w = (Inr s', w')"
  then show "sized a b s'"
    by (intro for_each_lift_sized [where step = "step j" and a = a and b = b and im = s and im' = s'
          and xs = xs and w = w and w' = w'] st)
qed

text \<open>Whatever kind is drawn, a gradient background that is returned has the size asked for.\<close>

lemma generate_gradient_background_sized:
  assumes "generate_gradient_background E width height colors w = (Inr img, w')"
  shows "sized width height img"
proof -
  let ?ks = "[''horizontal'', ''vertical'', ''diagonal'', ''radial'']"
  obtain img0 where n: "Image_new RGB width height (0, 0, 0, 255) = Inr img0"
    using assms unfolding generate_gradient_background_def
    by (cases "Image_new RGB width height (0, 0, 0, 255)") (simp_all add: raise_def)
  have s0: "sized width height img0" using n by (rule Image_new_sized)
  define k where "k = rng w (rng_pos w) mod length ?ks"
  define w1 where "w1 = w\<lparr>rng_pos := Suc (rng_pos w)\<rparr>"
  have ch: "random_choice ?ks w = (Inr (?ks ! k), w1)"
    unfolding k_def w1_def by (rule random_choice_nonempty) simp
  have "k < 4" unfolding k_def by simp
  then consider "k = 0" | "k = 1" | "k = 2" | "k = 3" by linarith
  then show ?thesis
  proof cases
    case 1
    have "for_each (py_range width) (\<lambda>x im. lift (horizontal_step E width height colors x im)) img0 w1 = (Inr img, w')"
      using assms unfolding generate_gradient_background_def by (simp add: n bind_def ch 1)
    then show ?thesis
      by (rule for_each_lift_sized [where step = "horizontal_step E width height colors", rotated])
         (rule s0, erule gradient_steps_sized(1))
  next
    case 2
    have "for_each (py_range height) (\<lambda>y im. lift (vertical_step E width height colors y im)) img0 w1 = (Inr img, w')"
      using assms unfolding generate_gradient_background_def by (simp add: n bind_def ch 2)
    then show ?thesis
      by (rule for_each_lift_sized [where step = "vertical_step E width height colors", rotated])
         (rule s0, erule gradient_steps_sized(2))
  next
    case 3
    have "for_each (py_range height) (\<lambda>y im. for_each (py_range width)
        (\<lambda>x im. lift (diagonal_step E width height colors y x im)) im) img0 w1 = (Inr img, w')"
      using assms unfolding generate_gradient_background_def by (simp add: n bind_def ch 3)
    then show ?thesis
      by (rule for_each_nested_sized [where step = "diagonal_step E width height colors", rotated])
         (rule s0, erule gradient_steps_sized(3))
  next
    case 4
    obtain md where md: "math_sqrt E ((width div 2)\<^sup>2 + (height div 2)\<^sup>2) = Inr md"
      "for_each (py_range height) (\<lambda>y im. for_each (py_range width)
        (\<lambda>x im. lift (radial_step E (width div 2) (height div 2) md colors y x im)) im) img0 w1 = (Inr img, w')"
      using assms unfolding generate_gradient_background_def
      by (cases "math_sqrt E ((width div 2)\<^sup>2 + (height div 2)\<^sup>2)")
         (simp_all add: n bind_def ch 4 Let_def raise_def)
    from md(2) show ?thesis
      by (rule for_each_nested_sized [where step = "radial_step E (width div 2) (height div 2) md colors", rotated])
         (rule s0, erule gradient_steps_sized(4))
  qed
qed

text \<open>Pattern generation, text overlay and effect filter return an image of the size
  of the one they are given.\<close>

lemma add_shape_sized:
  assumes "add_shape E pt width height colors img w = (Inr img', w')"
  shows "sized a b img' = sized a b img"
proof -
  obtain overlay where "composite_onto img overlay = Inr img'"
    using assms unfolding add_shape_def by (auto simp: bind_Inr_iff lift_Inr_iff)
  then show ?thesis by (rule composite_onto_sized)
qed

lemma add_geometric_patterns_sized:
  assumes "add_geometric_patterns E img colors w = (Inr img', w')"
  shows "sized a b img' = sized a b img"
proof -
  obtain pt n w2 where run: "for_each (py_range n)
      (\<lambda>_ im. add_shape E pt (im_width img) (im_height img) colors im) img w2 = (Inr img', w')"
    using assms unfolding add_geometric_patterns_def Let_def by (auto simp: bind_Inr_iff)
  show ?thesis
  proof (rule for_each_invariant [where P = "\<lambda>im. sized a b im = sized a b img", OF _ _ run])
    fix i s w s' w'
    assume "sized a b s = sized a b img"
      "add_shape E pt (im_width img) (im_height img) colors s w = (Inr s', w')"
    then show "sized a b s' = sized a b img" using add_shape_sized [of E pt _ _ colors s w s' w' a b] by simp
  qed simp
qed

lemma add_text_overlay_sized:
  assumes "add_text_overlay E img prompt w = (Inr img', w')"
  shows "sized a b img' = sized a b img"
  using assms add_text_overlay_run [of E img prompt w] by (auto simp: sized_def)

lemma apply_artistic_effects_sized:
  assumes "apply_artistic_effects E img w = (Inr img', w')"
  shows "sized a b img' = sized a b img"
  using assms apply_artistic_effects_run [of E img w] by auto

lemma abstract_shape_sized:
  assumes "abstract_shape E width height colors img w = (Inr img', w')"
  shows "sized a b img' = sized a b img"
proof -
  obtain st color w2 where body: "(if st = ''ellipse'' then
         bind (corner_box width height) (\<lambda>box.
         bind (lift (getrgb E color)) (\<lambda>c. lift (draw_ellipse E img box (ink3 c))))
       else if st = ''rectangle'' then
         bind (corner_box width height) (\<lambda>box.
         bind (lift (getrgb E color)) (\<lambda>c. lift (draw_rectangle img box (ink3 c))))
       else if st = ''polygon'' then
         bind (random_randint 3 6) (\<lambda>num_points.
         bind (for_each (py_range num_points) (\<lambda>_ points. random_point width height points) []) (\<lambda>points.
         bind (lift (getrgb E color)) (\<lambda>c. ret (draw_polygon E img points (ink3 c)))))
       else ret img) w2 = (Inr img', w')"
    using assms unfolding abstract_shape_def by (auto simp: bind_Inr_iff)
  consider "st = ''ellipse''" | "st \<noteq> ''ellipse''" "st = ''rectangle''"
    | "st \<noteq> ''ellipse''" "st \<noteq> ''rectangle''" "st = ''polygon''"
    | "st \<noteq> ''ellipse''" "st \<noteq> ''rectangle''" "st \<noteq> ''polygon''" by blast
  then show ?thesis
  proof cases
    case 1
    then obtain box c where "draw_ellipse E img box (ink3 c) = Inr img'"
      using body by (auto simp: bind_Inr_iff lift_Inr_iff)
    then show ?thesis by (rule draw_ellipse_sized)
  next
    case 2
    then obtain box c where "draw_rectangle img box (ink3 c) = Inr img'"
      using body by (auto simp: bind_Inr_iff lift_Inr_iff)
    then show ?thesis by (rule draw_rectangle_sized)
  next
    case 3
    then obtain pts c where "img' = draw_polygon E img pts (ink3 c)"
      using body by (auto simp: bind_Inr_iff lift_Inr_iff ret_def)
    then show ?thesis by simp
  next
    case 4
    then show ?thesis using body by (simp add: ret_def)
  qed
qed

lemma create_abstract_art_sized:
  assumes "create_abstract_art E width height colors w = (Inr img, w')"
  shows "sized width height img"
proof -
  obtain img0 n w2 where n: "Image_new RGB width height (255, 255, 255, 255) = Inr img0"
    and run: "for_each (py_range n) (\<lambda>_ im. abstract_shape E width height colors im) img0 w2 = (Inr img, w')"
    using assms unfolding create_abstract_art_def by (auto simp: bind_Inr_iff lift_Inr_iff)
  have s0: "sized width height img0" using n by (rule Image_new_sized)
  show ?thesis
  proof (rule for_each_invariant [where P = "sized width height", OF _ s0 run])
    fix i s w s' w'
    assume "sized width height s" "abstract_shape E width height colors s w = (Inr s', w')"
    then show "sized width height s'"
      using abstract_shape_sized [of E width height colors s w s' w' width height] by simp
  qed
qed

lemma base_image_sized:
  assumes "base_image E style width height colors w = (Inr img, w')"
  shows "sized width height img"
proof -
  consider "style = ''gradient''" | "style \<noteq> ''gradient''" "style = ''abstract''"
    | "style \<noteq> ''gradient''" "style \<noteq> ''abstract''" "style = ''geometric''"
    | "style \<noteq> ''gradient''" "style \<noteq> ''abstract''" "style \<noteq> ''geometric''" by blast
  then show ?thesis
  proof cases
    case 1
    then show ?thesis using assms generate_gradient_background_sized
      by (simp add: base_image_def)
  next
    case 2
    then show ?thesis using assms create_abstract_art_sized
      by (simp add: base_image_def)
  next
    case 3
    then obtain c img0 w2 where n: "Image_new RGB width height (ink3 c) = Inr img0"
      and run: "add_geometric_patterns E img0 (drop 1 colors) w2 = (Inr img, w')"
      using assms unfolding base_image_def by (auto simp: bind_Inr_iff lift_Inr_iff)
    have "sized width height img0" using n by (rule Image_new_sized)
    then show ?thesis using add_geometric_patterns_sized [OF run] by simp
  next
    case 4
    then show ?thesis using assms by (simp add: base_image_def raise_def)
  qed
qed

lemma render_sized:
  assumes "render E prompt style width height colors w = (Inr img, w')"
  shows "sized width height img"
proof -
  obtain i1 w1 i2 w2 where b: "base_image E style width height colors w = (Inr i1, w1)"
    and t: "add_text_overlay E i1 prompt w1 = (Inr i2, w2)"
    and e: "apply_artistic_effects E i2 w2 = (Inr img, w')"
    using assms unfolding render_def by (auto simp: bind_Inr_iff)
  show ?thesis
    using base_image_sized [OF b] add_text_overlay_sized [OF t] apply_artistic_effects_sized [OF e]
    by simp
qed

text \<open>An image that \<open>generate_image\<close> reports as saved is in the file system under the
  returned path and has the width and the height of the call.\<close>

lemma generate_image_try_saved_sized:
  assumes "generate_image_try E prompt theme style width height colors w = (Inr (Some path), w')"
  shows "\<exists>img. files w' path = Some img \<and> sized width height img"
proof -
  obtain img w1 where r: "render E prompt style width height colors w = (Inr img, w1)"
    and rest: "bind (timestamp_now E) (\<lambda>timestamp.
       let filename = ''local_generated_'' @ style @ ''_'' @ timestamp @ ''.png'';
           filepath = path_join (output_dir E) filename
       in bind (save E img filepath) (\<lambda>_.
          bind (print MsgSuccess) (\<lambda>_.
          bind (print (MsgSaved filepath)) (\<lambda>_.
          bind (print (MsgThemeStyle theme style)) (\<lambda>_.
            ret (Some filepath)))))) w1 = (Inr (Some path), w')"
    using assms unfolding generate_image_try_def by (auto simp: bind_Inr_iff)
  have "files w' path = Some img"
    using rest
    by (auto simp: bind_Inr_iff timestamp_now_def Let_def save_def print_def ret_def split: if_splits)
  then show ?thesis using render_sized [OF r] by simp
qed

lemma generate_image_saved_sized:
  assumes "generate_image E prompt width height style w = (Inr (Some path), w')"
  shows "\<exists>img. files w' path = Some img \<and> sized width height img"
proof -
  have nb: "\<not> (prompt = [] \<or> strip prompt = [])"
    using assms by (auto simp: generate_image_def bind_def print_def ret_def)
  then obtain theme colors style' w5 where
    c: "catch (generate_image_try E (strip prompt) theme style' width height colors)
          generate_image_except w5 = (Inr (Some path), w')"
    using assms unfolding generate_image_def Let_def by (auto simp: bind_Inr_iff)
  show ?thesis
  proof (cases "generate_image_try E (strip prompt) theme style' width height colors w5")
    case (Pair r w6)
    show ?thesis
    proof (cases r)
      case (Inl e)
      then show ?thesis using c Pair
        by (simp add: catch_def generate_image_except_def bind_def print_def ret_def)
    next
      case (Inr x)
      then have "generate_image_try E (strip prompt) theme style' width height colors w5 = (Inr (Some path), w')"
        using c Pair by (simp add: catch_def)
      then show ?thesis by (rule generate_image_try_saved_sized)
    qed
  qed
qed

section \<open>Claim on the caption\<close>

text \<open>
  The words of \<open>str.split\<close> are the maximal runs without whitespace: the text is the
  words in their order, with runs of whitespace before, between and after them, and the
  runs between two words are not empty.
\<close>

lemma split_ws_weave:
  "\<exists>seps. length seps = Suc (length (split_ws s)) \<and> hd seps = takeWhile is_space s \<and>
      list_all blank seps \<and> list_all (\<lambda>sp. sp \<noteq> []) (butlast (tl seps)) \<and>
      s = weave seps (split_ws s)"
proof (induction s rule: split_ws.induct)
  case (1 s)
  have b0: "blank (takeWhile is_space s)"
    by (auto simp: blank_def list_all_iff dest: set_takeWhileD)
  show ?case
  proof (cases "dropWhile is_space s")
    case Nil
    then have ts: "takeWhile is_space s = s" by (metis takeWhile_dropWhile_id append_Nil2)
    have bs: "blank s" using b0 unfolding ts .
    have "length [s] = Suc (length (split_ws s)) \<and> hd [s] = takeWhile is_space s \<and>
      list_all blank [s] \<and> list_all (\<lambda>sp. sp \<noteq> []) (butlast (tl [s])) \<and>
      s = weave [s] (split_ws s)"
      using bs ts [symmetric] split_ws_Nil [OF Nil] by (simp del: takeWhile_eq_all_conv)
    then show ?thesis by blast
  next
    case (Cons c cs)
    let ?t = "c # cs"
    let ?w = "takeWhile (\<lambda>d. \<not> is_space d) ?t"
    let ?r = "dropWhile (\<lambda>d. \<not> is_space d) ?t"
    obtain seps where seps: "length seps = Suc (length (split_ws ?r))" "hd seps = takeWhile is_space ?r"
      "list_all blank seps" "list_all (\<lambda>sp. sp \<noteq> []) (butlast (tl seps))" "?r = weave seps (split_ws ?r)"
      using 1 [OF Cons] by blast
    obtain s1 ss where ss: "seps = s1 # ss" using seps(1) by (cases seps) auto
    have sw: "split_ws s = ?w # split_ws ?r" using split_ws_Cons [OF Cons] .
    have s: "s = takeWhile is_space s @ ?w @ ?r"
      using takeWhile_dropWhile_id [of is_space s] Cons by simp
    have ne: "list_all (\<lambda>sp. sp \<noteq> []) (butlast seps)"
    proof (cases ss)
      case Nil
      then show ?thesis by (simp add: ss)
    next
      case (Cons s2 ss')
      then have "split_ws ?r \<noteq> []" using seps(1) ss by auto
      then have "dropWhile is_space ?r \<noteq> []" using split_ws_Nil [of ?r] by blast
      then have r: "?r \<noteq> []" by (metis dropWhile.simps(1))
      then have "is_space (hd ?r)" using hd_dropWhile [of "\<lambda>d. \<not> is_space d" ?t] by blast
      then have "takeWhile is_space ?r \<noteq> []" using r by (cases ?r) auto
      then have "s1 \<noteq> []" using seps(2) ss by simp
      then show ?thesis using seps(4) ss Cons by simp
    qed
    let ?seps = "takeWhile is_space s # seps"
    have "length ?seps = Suc (length (split_ws s))" using seps(1) sw by simp
    moreover have "hd ?seps = takeWhile is_space s" by simp
    moreover have "list_all blank ?seps" using b0 seps(3) by simp
    moreover have "list_all (\<lambda>sp. sp \<noteq> []) (butlast (tl ?seps))" using ne by simp
    moreover have "s = weave ?seps (split_ws s)"
      unfolding sw using s seps(5) by simp
    ultimately show ?thesis by blast
  qed
qed

lemma draw_caption_anchor:
  assumes b: "textbbox E font caption = (x0, y0, x1, y1)"
    and a: "[(im_width img div 2 - (x1 - x0) div 2, 50),
             (im_width img div 2 - (x1 - x0) div 2, im_height img - (y1 - y0) - 50),
             (50, im_height img div 2 - (y1 - y0) div 2),
             (im_width img - (x1 - x0) - 50, im_height img div 2 - (y1 - y0) div 2)]
              ! (rng w (rng_pos w) mod 4) = (x, y)"
  shows "draw_caption E img font caption w =
           (Inr (draw_text E (draw_text E img (x + 3, y + 3) caption (0, 0, 0, 255) font)
                   (x, y) caption (255, 255, 255, 255) font),
            w\<lparr>rng_pos := Suc (rng_pos w)\<rparr>)"
proof -
  define ps where "ps =
            [(im_width img div 2 - (x1 - x0) div 2, 50),
             (im_width img div 2 - (x1 - x0) div 2, im_height img - (y1 - y0) - 50),
             (50, im_height img div 2 - (y1 - y0) div 2),
             (im_width img - (x1 - x0) - 50, im_height img div 2 - (y1 - y0) div 2)]"
  have ne: "ps \<noteq> []" and l: "length ps = 4" by (simp_all add: ps_def)
  have ch: "random_choice ps w = (Inr (x, y), w\<lparr>rng_pos := Suc (rng_pos w)\<rparr>)"
    using random_choice_nonempty [OF ne, of w] a by (simp add: l ps_def [symmetric])
  show ?thesis
    unfolding draw_caption_def Let_def b
    by (simp add: ps_def [symmetric] bind_def ch ret_def)
qed

text \<open>
  Claim C8. For every ASCII prompt, \<open>add_text_overlay\<close> returns the image on which
  \<open>draw.text\<close> has drawn the caption twice, first in black three pixels to the right and
  below the anchor, then in white at the anchor, where the caption is the first three
  whitespace-separated words of the prompt, each in upper case, joined by single spaces
  (all the words when there are at most three). The anchor is the one of the four
  positions, computed from the size of the image and from the box that \<open>draw.textbbox\<close>
  measures for this same caption, that the random draw selects. The words are those of
  \<open>str.split\<close>: none is empty, none holds a whitespace character, and the prompt is these
  words in their order with runs of whitespace before, between and after them, the runs
  between two words not empty.
\<close>

theorem add_text_overlay_draws_caption:
  assumes "ascii prompt"
  shows "(let caption = join_sp (map upper (take 3 (split_ws prompt)));
              font = load_font E [60, 48, 36, 24];
              (x0, y0, x1, y1) = textbbox E font caption;
              (x, y) = [(im_width img div 2 - (x1 - x0) div 2, 50),
                        (im_width img div 2 - (x1 - x0) div 2, im_height img - (y1 - y0) - 50),
                        (50, im_height img div 2 - (y1 - y0) div 2),
                        (im_width img - (x1 - x0) - 50, im_height img div 2 - (y1 - y0) div 2)]
                         ! (rng w (rng_pos w) mod 4)
          in add_text_overlay E img prompt w =
               (Inr (draw_text E (draw_text E img (x + 3, y + 3) caption (0, 0, 0, 255) font)
                       (x, y) caption (255, 255, 255, 255) font),
                w\<lparr>rng_pos := Suc (rng_pos w)\<rparr>)) \<and>
         (length (split_ws prompt) \<le> 3 \<longrightarrow>
            join_sp (map upper (take 3 (split_ws prompt))) = join_sp (map upper (split_ws prompt))) \<and>
         (\<forall>w \<in> set (split_ws prompt). w \<noteq> [] \<and> (\<forall>c \<in> set w. \<not> is_space c)) \<and>
         (\<exists>seps. length seps = Suc (length (split_ws prompt)) \<and> list_all blank seps \<and>
            list_all (\<lambda>sp. sp \<noteq> []) (butlast (tl seps)) \<and> prompt = weave seps (split_ws prompt))"
proof -
  let ?caption = "join_sp (map upper (take 3 (split_ws prompt)))"
  let ?font = "load_font E [60, 48, 36, 24]"
  have d: "display_text prompt = ?caption"
    by (simp add: display_text_def upper_join_sp)
  obtain x0 y0 x1 y1 where b: "textbbox E ?font ?caption = (x0, y0, x1, y1)"
    by (cases "textbbox E ?font ?caption") auto
  obtain x y where a: "[(im_width img div 2 - (x1 - x0) div 2, 50),
             (im_width img div 2 - (x1 - x0) div 2, im_height img - (y1 - y0) - 50),
             (50, im_height img div 2 - (y1 - y0) div 2),
             (im_width img - (x1 - x0) - 50, im_height img div 2 - (y1 - y0) div 2)]
              ! (rng w (rng_pos w) mod 4) = (x, y)"
    by (meson surj_pair)
  have run: "add_text_overlay E img prompt w =
           (Inr (draw_text E (draw_text E img (x + 3, y + 3) ?caption (0, 0, 0, 255) ?font)
                   (x, y) ?caption (255, 255, 255, 255) ?font),
            w\<lparr>rng_pos := Suc (rng_pos w)\<rparr>)"
    unfolding add_text_overlay_def Let_def d by (rule draw_caption_anchor [OF b a])
  have 1: "(let caption = ?caption;
              font = ?font;
              (x0, y0, x1, y1) = textbbox E font caption;
              (x, y) = [(im_width img div 2 - (x1 - x0) div 2, 50),
                        (im_width img div 2 - (x1 - x0) div 2, im_height img - (y1 - y0) - 50),
                        (50, im_height img div 2 - (y1 - y0) div 2),
                        (im_width img - (x1 - x0) - 50, im_height img div 2 - (y1 - y0) div 2)]
                         ! (rng w (rng_pos w) mod 4)
          in add_text_overlay E img prompt w =
               (Inr (draw_text E (draw_text E img (x + 3, y + 3) caption (0, 0, 0, 255) font)
                       (x, y) caption (255, 255, 255, 255) font),
                w\<lparr>rng_pos := Suc (rng_pos w)\<rparr>))"
    unfolding Let_def b prod.case a by (rule run)
  have 2: "length (split_ws prompt) \<le> 3 \<longrightarrow> ?caption = join_sp (map upper (split_ws prompt))"
    by simp
  have 3: "\<forall>w \<in> set (split_ws prompt). w \<noteq> [] \<and> (\<forall>c \<in> set w. \<not> is_space c)"
    using split_ws_words by blast
  have 4: "\<exists>seps. length seps = Suc (length (split_ws prompt)) \<and> list_all blank seps \<and>
            list_all (\<lambda>sp. sp \<noteq> []) (butlast (tl seps)) \<and> prompt = weave seps (split_ws prompt)"
    using split_ws_weave [of prompt] by blast
  show ?thesis using 1 2 3 4 by (intro conjI)
qed

text \<open>
  The theorem at the prompt \<open>a b c d e\<close> on an image of 800 by 600, where the caption
  drawn is \<open>A B C\<close> and the first anchor is \<open>(385, 50)\<close>, and at a prompt of two words.
\<close>

theorem add_text_overlay_draws_caption_witness:
  "ascii ''a b c d e'' \<and>
   add_text_overlay plain_env
       \<lparr>im_mode = RGB, im_width = 800, im_height = 600, im_px = (\<lambda>x y. (0, 0, 0, 255))\<rparr>
       ''a b c d e'' (start_world (\<lambda>_. 0)) =
     (Inr (draw_text plain_env
             (draw_text plain_env
                \<lparr>im_mode = RGB, im_width = 800, im_height = 600, im_px = (\<lambda>x y. (0, 0, 0, 255))\<rparr>
                (388, 53) ''A B C'' (0, 0, 0, 255) DefaultFont)
             (385, 50) ''A B C'' (255, 255, 255, 255) DefaultFont),
      (start_world (\<lambda>_. 0))\<lparr>rng_pos := 1\<rparr>) \<and>
   length (split_ws ''Ocean sunset'') \<le> 3 \<and>
   join_sp (map upper (take 3 (split_ws ''Ocean sunset''))) = ''OCEAN SUNSET'' \<and>
   split_ws ''a b c d e'' = [''a'', ''b'', ''c'', ''d'', ''e'']"
proof -
  let ?img = "\<lparr>im_mode = RGB, im_width = 800, im_height = 600, im_px = (\<lambda>x y. (0, 0, 0, 255))\<rparr>"
  have a: "ascii ''a b c d e''" "ascii ''Ocean sunset''" by code_simp+
  have c: "join_sp (map upper (take 3 (split_ws ''a b c d e''))) = ''A B C''" by code_simp
  have f: "load_font plain_env [60, 48, 36, 24] = DefaultFont" by (simp add: plain_env_def)
  have t: "textbbox plain_env DefaultFont ''A B C'' = (0, 0, 30, 11)" by (simp add: plain_env_def)
  have l: "length (split_ws ''Ocean sunset'') \<le> 3" by code_simp
  have u: "join_sp (map upper (split_ws ''Ocean sunset'')) = ''OCEAN SUNSET''" by code_simp
  have s: "split_ws ''a b c d e'' = [''a'', ''b'', ''c'', ''d'', ''e'']" by code_simp
  have r: "rng (start_world (\<lambda>_. 0)) (rng_pos (start_world (\<lambda>_. 0))) mod 4 = 0"
    "Suc (rng_pos (start_world (\<lambda>_. 0))) = 1"
    by (simp_all add: start_world_def)
  have 1: "add_text_overlay plain_env ?img ''a b c d e'' (start_world (\<lambda>_. 0)) =
     (Inr (draw_text plain_env (draw_text plain_env ?img (388, 53) ''A B C'' (0, 0, 0, 255) DefaultFont)
             (385, 50) ''A B C'' (255, 255, 255, 255) DefaultFont),
      (start_world (\<lambda>_. 0))\<lparr>rng_pos := 1\<rparr>)"
    using add_text_overlay_draws_caption [OF a(1), of plain_env ?img "start_world (\<lambda>_. 0)"]
    unfolding c Let_def f t prod.case r by (simp del: plain_env_no_text)
  have 2: "join_sp (map upper (take 3 (split_ws ''Ocean sunset''))) = ''OCEAN SUNSET''"
    using add_text_overlay_draws_caption [OF a(2), of plain_env ?img "start_world (\<lambda>_. 0)"] l u by simp
  show ?thesis using a(1) 1 l 2 s by (intro conjI)
qed

section \<open>The pipeline produces an image\<close>

text \<open>
  A loop whose body returns on every state that satisfies an invariant, and keeps
  the invariant, returns.
\<close>

lemma for_each_total:
  assumes "P s" and step: "\<And>i s w. P s \<Longrightarrow> \<exists>s' w'. body i s w = (Inr s', w') \<and> P s'"
  shows "\<exists>s' w'. for_each xs body s w = (Inr s', w') \<and> P s'"
  using assms(1)
proof (induction xs arbitrary: s w)
  case Nil
  then show ?case by (simp add: ret_def)
next
  case (Cons i xs)
  obtain s1 w1 where b: "body i s w = (Inr s1, w1)" "P s1" using step [OF Cons.prems] by blast
  obtain s' w' where "for_each xs body s1 w1 = (Inr s', w')" "P s'" using Cons.IH [OF b(2)] by blast
  then show ?case using b(1) by (simp add: bind_def)
qed

lemma gradient_color_total:
  assumes "valid_hex c0" "valid_hex c1"
  shows "\<exists>c. gradient_color E (c0 # c1 # rest) ratio = Inr c"
  using hex_rgb_valid [OF assms(1)] hex_rgb_valid [OF assms(2)]
  by (cases "rgb_triple c0"; cases "rgb_triple c1")
     (simp add: gradient_color_def nth_py_def blend_colors_def)

lemma gradient_steps_total:
  assumes "valid_hex c0" "valid_hex c1"
  shows "width \<noteq> 0 \<Longrightarrow> \<exists>im'. horizontal_step E width height (c0 # c1 # rest) x im = Inr im'"
    and "height \<noteq> 0 \<Longrightarrow> \<exists>im'. vertical_step E width height (c0 # c1 # rest) y im = Inr im'"
    and "width + height \<noteq> 0 \<Longrightarrow> \<exists>im'. diagonal_step E width height (c0 # c1 # rest) y x im = Inr im'"
    and "md \<noteq> 0 \<Longrightarrow> \<exists>im'. radial_step E cx cy md (c0 # c1 # rest) y x im = Inr im'"
proof -
  have g: "\<exists>c. gradient_color E (c0 # c1 # rest) ratio = Inr c" for ratio
    using gradient_color_total [OF assms] .
  show "width \<noteq> 0 \<Longrightarrow> \<exists>im'. horizontal_step E width height (c0 # c1 # rest) x im = Inr im'"
    using g [of "fl E (real_of_int x / real_of_int width)"]
    by (auto simp: horizontal_step_def int_truediv_def)
  show "height \<noteq> 0 \<Longrightarrow> \<exists>im'. vertical_step E width height (c0 # c1 # rest) y im = Inr im'"
    using g [of "fl E (real_of_int y / real_of_int height)"]
    by (auto simp: vertical_step_def int_truediv_def)
  show "width + height \<noteq> 0 \<Longrightarrow> \<exists>im'. diagonal_step E width height (c0 # c1 # rest) y x im = Inr im'"
    using g [of "fl E (real_of_int (x + y) / real_of_int (width + height))"]
    by (auto simp: diagonal_step_def int_truediv_def)
  show "md \<noteq> 0 \<Longrightarrow> \<exists>im'. radial_step E cx cy md (c0 # c1 # rest) y x im = Inr im'"
    using g [of "min (fl E (fl E (sqrt (fl E (real_of_int ((x - cx)\<^sup>2 + (y - cy)\<^sup>2)))) / md)) 1"]
    using not_sum_power2_lt_zero [of "x - cx" "y - cy"]
    by (auto simp: radial_step_def math_sqrt_def float_div_def)
qed

text \<open>
  When the image is wider or higher than one pixel, \<open>max_distance\<close> is at least 1, so
  the radial gradient divides by a number that is not zero.
\<close>

lemma max_distance_positive:
  assumes f: "rounding (fl E)" and n: "1 \<le> n"
  shows "\<exists>md. math_sqrt E n = Inr md \<and> 1 \<le> md"
proof -
  have one: "fl E 1 = 1" using rounding_int [OF f, of 1] by simp
  have "fl E 1 \<le> fl E (of_int n)" using n by (intro rounding_mono [OF f]) simp
  then have "1 \<le> fl E (of_int n)" using one by simp
  then have "1 \<le> sqrt (fl E (of_int n))" by simp
  then have "fl E 1 \<le> fl E (sqrt (fl E (of_int n)))" by (rule rounding_mono [OF f])
  then show ?thesis using n one by (simp add: math_sqrt_def)
qed

lemma for_each_lift_total:
  assumes "\<And>i im. \<exists>im'. step i im = Inr im'"
  shows "\<exists>im' w'. for_each xs (\<lambda>i im. lift (step i im)) im w = (Inr im', w')"
proof -
  have "\<exists>s' w'. for_each xs (\<lambda>i im. lift (step i im)) im w = (Inr s', w') \<and> True"
  proof (rule for_each_total [where P = "\<lambda>_. True"])
    fix i s w
    obtain im' where "step i s = Inr im'" using assms by blast
    then show "\<exists>s' w'. lift (step i s) w = (Inr s', w') \<and> True" by (simp add: lift_def)
  qed simp
  then show ?thesis by blast
qed

lemma for_each_nested_total:
  assumes "\<And>j i im. \<exists>im'. step j i im = Inr im'"
  shows "\<exists>im' w'. for_each ys (\<lambda>j im. for_each xs (\<lambda>i im. lift (step j i im)) im) im w = (Inr im', w')"
proof -
  have "\<exists>s' w'. for_each ys (\<lambda>j im. for_each xs (\<lambda>i im. lift (step j i im)) im) im w = (Inr s', w') \<and> True"
  proof (rule for_each_total [where P = "\<lambda>_. True"])
    fix j s w
    show "\<exists>s' w'. for_each xs (\<lambda>i im. lift (step j i im)) s w = (Inr s', w') \<and> True"
      using for_each_lift_total [where step = "step j" and xs = xs and im = s and w = w] assms by blast
  qed simp
  then show ?thesis by blast
qed

text \<open>
  The gradient background is returned for every positive size other than 1 by 1,
  whatever kind is drawn, and at 1 by 1 when the kind drawn is not \<open>radial\<close>.
\<close>

lemma generate_gradient_background_total:
  assumes f: "rounding (fl E)" and size: "0 < width" "0 < height"
    and hex: "valid_hex c0" "valid_hex c1"
    and nd: "1 < width \<or> 1 < height"
  shows "\<exists>img w'. generate_gradient_background E width height (c0 # c1 # rest) w = (Inr img, w')"
proof -
  let ?ks = "[''horizontal'', ''vertical'', ''diagonal'', ''radial'']"
  let ?colors = "c0 # c1 # rest"
  define img0 where "img0 = \<lparr>im_mode = RGB, im_width = width, im_height = height, im_px = (\<lambda>x y. (0, 0, 0, 255))\<rparr>"
  have n: "Image_new RGB width height (0, 0, 0, 255) = Inr img0"
    using size by (simp add: Image_new_def img0_def)
  have h1: "\<exists>im'. horizontal_step E width height ?colors x im = Inr im'" for x im
    using gradient_steps_total(1) [OF hex, of width] size by simp
  have h2: "\<exists>im'. vertical_step E width height ?colors y im = Inr im'" for y im
    using gradient_steps_total(2) [OF hex, of height] size by simp
  have h3: "\<exists>im'. diagonal_step E width height ?colors y x im = Inr im'" for y x im
    using gradient_steps_total(3) [OF hex, of width height] size by simp
  define k where "k = rng w (rng_pos w) mod length ?ks"
  define w1 where "w1 = w\<lparr>rng_pos := Suc (rng_pos w)\<rparr>"
  have ch: "random_choice ?ks w = (Inr (?ks ! k), w1)"
    unfolding k_def w1_def by (rule random_choice_nonempty) simp
  have "k < 4" unfolding k_def by simp
  then consider "k = 0" | "k = 1" | "k = 2" | "k = 3" by linarith
  then show ?thesis
  proof cases
    case 1
    obtain img w' where "for_each (py_range width) (\<lambda>x im. lift (horizontal_step E width height ?colors x im)) img0 w1 = (Inr img, w')"
      using for_each_lift_total [where step = "horizontal_step E width height ?colors", OF h1] by blast
    then show ?thesis unfolding generate_gradient_background_def by (simp add: n bind_def ch 1)
  next
    case 2
    obtain img w' where "for_each (py_range height) (\<lambda>y im. lift (vertical_step E width height ?colors y im)) img0 w1 = (Inr img, w')"
      using for_each_lift_total [where step = "vertical_step E width height ?colors", OF h2] by blast
    then show ?thesis unfolding generate_gradient_background_def by (simp add: n bind_def ch 2)
  next
    case 3
    obtain img w' where "for_each (py_range height) (\<lambda>y im. for_each (py_range width)
        (\<lambda>x im. lift (diagonal_step E width height ?colors y x im)) im) img0 w1 = (Inr img, w')"
      using for_each_nested_total [where step = "diagonal_step E width height ?colors", OF h3] by blast
    then show ?thesis unfolding generate_gradient_background_def by (simp add: n bind_def ch 3)
  next
    case 4
    have "1 \<le> width div 2 \<or> 1 \<le> height div 2" using nd by auto
    then have "1 \<le> (width div 2)\<^sup>2 + (height div 2)\<^sup>2"
      by (smt (verit) one_le_power power2_less_0 zero_le_power2)
    then obtain md where md: "math_sqrt E ((width div 2)\<^sup>2 + (height div 2)\<^sup>2) = Inr md" "1 \<le> md"
      using max_distance_positive [OF f] by blast
    then have "md \<noteq> 0" by simp
    then have h4: "\<exists>im'. radial_step E (width div 2) (height div 2) md ?colors y x im = Inr im'" for y x im
      by (rule gradient_steps_total(4) [OF hex])
    obtain img w' where "for_each (py_range height) (\<lambda>y im. for_each (py_range width)
        (\<lambda>x im. lift (radial_step E (width div 2) (height div 2) md ?colors y x im)) im) img0 w1 = (Inr img, w')"
      using for_each_nested_total [where step = "radial_step E (width div 2) (height div 2) md ?colors", OF h4] by blast
    then show ?thesis unfolding generate_gradient_background_def
      by (simp add: n bind_def ch 4 Let_def md(1))
  qed
qed

lemma generate_gradient_background_not_radial_total:
  assumes size: "0 < width" "0 < height" and hex: "valid_hex c0" "valid_hex c1"
    and nr: "\<not> selects [''horizontal'', ''vertical'', ''diagonal'', ''radial''] ''radial'' w"
  shows "\<exists>img w'. generate_gradient_background E width height (c0 # c1 # rest) w = (Inr img, w')"
proof -
  let ?ks = "[''horizontal'', ''vertical'', ''diagonal'', ''radial'']"
  let ?colors = "c0 # c1 # rest"
  define img0 where "img0 = \<lparr>im_mode = RGB, im_width = width, im_height = height, im_px = (\<lambda>x y. (0, 0, 0, 255))\<rparr>"
  have n: "Image_new RGB width height (0, 0, 0, 255) = Inr img0"
    using size by (simp add: Image_new_def img0_def)
  have h1: "\<exists>im'. horizontal_step E width height ?colors x im = Inr im'" for x im
    using gradient_steps_total(1) [OF hex, of width] size by simp
  have h2: "\<exists>im'. vertical_step E width height ?colors y im = Inr im'" for y im
    using gradient_steps_total(2) [OF hex, of height] size by simp
  have h3: "\<exists>im'. diagonal_step E width height ?colors y x im = Inr im'" for y x im
    using gradient_steps_total(3) [OF hex, of width height] size by simp
  define k where "k = rng w (rng_pos w) mod length ?ks"
  define w1 where "w1 = w\<lparr>rng_pos := Suc (rng_pos w)\<rparr>"
  have ch: "random_choice ?ks w = (Inr (?ks ! k), w1)"
    unfolding k_def w1_def by (rule random_choice_nonempty) simp
  have "k < 4" unfolding k_def by simp
  moreover have "k \<noteq> 3" using nr by (auto simp: selects_index k_def)
  ultimately consider "k = 0" | "k = 1" | "k = 2" by linarith
  then show ?thesis
  proof cases
    case 1
    obtain img w' where "for_each (py_range width) (\<lambda>x im. lift (horizontal_step E width height ?colors x im)) img0 w1 = (Inr img, w')"
      using for_each_lift_total [where step = "horizontal_step E width height ?colors", OF h1] by blast
    then show ?thesis unfolding generate_gradient_background_def by (simp add: n bind_def ch 1)
  next
    case 2
    obtain img w' where "for_each (py_range height) (\<lambda>y im. lift (vertical_step E width height ?colors y im)) img0 w1 = (Inr img, w')"
      using for_each_lift_total [where step = "vertical_step E width height ?colors", OF h2] by blast
    then show ?thesis unfolding generate_gradient_background_def by (simp add: n bind_def ch 2)
  next
    case 3
    obtain img w' where "for_each (py_range height) (\<lambda>y im. for_each (py_range width)
        (\<lambda>x im. lift (diagonal_step E width height ?colors y x im)) im) img0 w1 = (Inr img, w')"
      using for_each_nested_total [where step = "diagonal_step E width height ?colors", OF h3] by blast
    then show ?thesis unfolding generate_gradient_background_def by (simp add: n bind_def ch 3)
  qed
qed

lemma random_randint_total:
  assumes "a \<le> b"
  shows "\<exists>v w'. random_randint a b w = (Inr v, w') \<and> a \<le> v \<and> v \<le> b"
  using random_randint_ok [OF assms, of w] random_randint_range [OF assms, of w] by blast

lemma random_choice_total:
  assumes "xs \<noteq> []"
  shows "\<exists>v w'. random_choice xs w = (Inr v, w') \<and> v \<in> set xs"
  using random_choice_nonempty [OF assms, of w] assms by simp

lemma getrgb_valid: "valid_hex c \<Longrightarrow> getrgb E c = Inr (rgb_triple c)"
  by (simp add: getrgb_def)

lemma corner_draws:
  assumes "0 \<le> width" "0 \<le> height"
  shows "\<exists>x1 w1 y1 w2 x2 w3 y2 w4.
           random_randint 0 (width div 2) w = (Inr x1, w1) \<and>
           random_randint 0 (height div 2) w1 = (Inr y1, w2) \<and>
           random_randint x1 width w2 = (Inr x2, w3) \<and>
           random_randint y1 height w3 = (Inr y2, w4) \<and> x1 \<le> x2 \<and> y1 \<le> y2"
proof -
  obtain x1 w1 where a: "random_randint 0 (width div 2) w = (Inr x1, w1)" "0 \<le> x1" "x1 \<le> width div 2"
    using random_randint_total [of 0 "width div 2" w] assms(1) by auto
  obtain y1 w2 where b: "random_randint 0 (height div 2) w1 = (Inr y1, w2)" "0 \<le> y1" "y1 \<le> height div 2"
    using random_randint_total [of 0 "height div 2" w1] assms(2) by auto
  have "x1 \<le> width" using a(3) assms(1) by linarith
  then obtain x2 w3 where c: "random_randint x1 width w2 = (Inr x2, w3)" "x1 \<le> x2"
    using random_randint_total [of x1 width w2] by auto
  have "y1 \<le> height" using b(3) assms(2) by linarith
  then obtain y2 w4 where d: "random_randint y1 height w3 = (Inr y2, w4)" "y1 \<le> y2"
    using random_randint_total [of y1 height w3] by auto
  show ?thesis using a(1) b(1) c d by blast
qed

lemma corner_box_total:
  assumes "0 \<le> width" "0 \<le> height"
  shows "\<exists>x1 y1 x2 y2 w'. corner_box width height w = (Inr (x1, y1, x2, y2), w') \<and> x1 \<le> x2 \<and> y1 \<le> y2"
proof -
  obtain x1 w1 y1 w2 x2 w3 y2 w4 where d:
    "random_randint 0 (width div 2) w = (Inr x1, w1)" "random_randint 0 (height div 2) w1 = (Inr y1, w2)"
    "random_randint x1 width w2 = (Inr x2, w3)" "random_randint y1 height w3 = (Inr y2, w4)"
    "x1 \<le> x2" "y1 \<le> y2"
    using corner_draws [OF assms, of w] by blast
  have "corner_box width height w = (Inr (x1, y1, x2, y2), w4)"
    unfolding corner_box_def by (simp add: bind_def d(1-4) ret_def)
  then show ?thesis using d(5,6) by blast
qed

lemma random_points_total:
  assumes "0 \<le> width" "0 \<le> height"
  shows "\<exists>pts w'. for_each xs (\<lambda>_ points. random_point width height points) ps w = (Inr pts, w')"
proof -
  have "\<exists>s' w'. for_each xs (\<lambda>_ points. random_point width height points) ps w = (Inr s', w') \<and> True"
  proof (rule for_each_total [where P = "\<lambda>_. True"])
    fix i :: int and s :: "(int \<times> int) list" and w
    obtain x w1 where a: "random_randint 0 width w = (Inr x, w1)"
      using random_randint_total [OF assms(1), of w] by blast
    obtain y w2 where b: "random_randint 0 height w1 = (Inr y, w2)"
      using random_randint_total [OF assms(2), of w1] by blast
    show "\<exists>s' w'. random_point width height s w = (Inr s', w') \<and> True"
      unfolding random_point_def by (simp add: bind_def a b ret_def)
  qed simp
  then show ?thesis by blast
qed

lemma abstract_shape_total:
  assumes c: "colors \<noteq> []" "list_all valid_hex colors" and wf: "0 \<le> width" "0 \<le> height"
  shows "\<exists>img' w'. abstract_shape E width height colors img w = (Inr img', w')"
proof -
  let ?ss = "[''ellipse'', ''rectangle'', ''polygon'']"
  define k where "k = rng w (rng_pos w) mod length ?ss"
  define w1 where "w1 = w\<lparr>rng_pos := Suc (rng_pos w)\<rparr>"
  have ch: "random_choice ?ss w = (Inr (?ss ! k), w1)"
    unfolding k_def w1_def by (rule random_choice_nonempty) simp
  obtain color w2 where col: "random_choice colors w1 = (Inr color, w2)" "color \<in> set colors"
    using random_choice_total [OF c(1), of w1] by blast
  have "valid_hex color" using col(2) c(2) by (simp add: list_all_iff)
  then have g: "getrgb E color = Inr (rgb_triple color)" by (rule getrgb_valid)
  have "k < 3" unfolding k_def by simp
  then consider "k = 0" | "k = 1" | "k = 2" by linarith
  then show ?thesis
  proof cases
    case 1
    obtain x1 y1 x2 y2 w3 where b: "corner_box width height w2 = (Inr (x1, y1, x2, y2), w3)" "x1 \<le> x2" "y1 \<le> y2"
      using corner_box_total [OF wf, of w2] by blast
    have "\<exists>im. draw_ellipse E img (x1, y1, x2, y2) (ink3 (rgb_triple color)) = Inr im"
      using b(2,3) by (simp add: draw_ellipse_def)
    then show ?thesis
      unfolding abstract_shape_def by (auto simp: bind_def ch 1 col(1) b(1) g lift_def)
  next
    case 2
    obtain x1 y1 x2 y2 w3 where b: "corner_box width height w2 = (Inr (x1, y1, x2, y2), w3)" "x1 \<le> x2" "y1 \<le> y2"
      using corner_box_total [OF wf, of w2] by blast
    have "\<exists>im. draw_rectangle img (x1, y1, x2, y2) (ink3 (rgb_triple color)) = Inr im"
      using b(2,3) by (simp add: draw_rectangle_def)
    then show ?thesis
      unfolding abstract_shape_def by (auto simp: bind_def ch 2 col(1) b(1) g lift_def)
  next
    case 3
    obtain n w3 where n: "random_randint 3 6 w2 = (Inr n, w3)"
      using random_randint_total [of 3 6 w2] by auto
    obtain pts w4 where p: "for_each (py_range n) (\<lambda>_ points. random_point width height points) [] w3 = (Inr pts, w4)"
      using random_points_total [OF wf] by blast
    show ?thesis
      unfolding abstract_shape_def by (simp add: bind_def ch 3 col(1) n p g ret_def)
  qed
qed

text \<open>
  The abstract style and the geometric style return for every palette of valid hex
  colours and every size that is not negative: every range handed to \<open>random.randint\<close>
  is non-empty and every box drawn has its corners in order.
\<close>

lemma create_abstract_art_total:
  assumes c: "colors \<noteq> []" "list_all valid_hex colors" and wf: "0 \<le> width" "0 \<le> height"
  shows "\<exists>img w'. create_abstract_art E width height colors w = (Inr img, w')"
proof -
  obtain img0 where n: "Image_new RGB width height (255, 255, 255, 255) = Inr img0"
    using wf by (simp add: Image_new_def)
  obtain k w1 where r: "random_randint 10 25 w = (Inr k, w1)"
    using random_randint_total [of 10 25 w] by auto
  have "\<exists>s' w'. for_each (py_range k) (\<lambda>_ img. abstract_shape E width height colors img) img0 w1 = (Inr s', w') \<and> True"
  proof (rule for_each_total [where P = "\<lambda>_. True"])
    fix i :: int and s w
    show "\<exists>s' w'. abstract_shape E width height colors s w = (Inr s', w') \<and> True"
      using abstract_shape_total [OF c wf, of E s w] by blast
  qed simp
  then show ?thesis unfolding create_abstract_art_def by (auto simp: n r bind_def)
qed

lemma shape_overlay_total:
  assumes wf: "0 \<le> width" "0 \<le> height" and c: "valid_hex color"
  shows "\<exists>ov w'. shape_overlay E pt width height color alpha overlay w = (Inr ov, w') \<and>
           im_mode ov = im_mode overlay \<and> im_width ov = im_width overlay \<and>
           im_height ov = im_height overlay"
proof -
  obtain r g b where t: "rgb_triple color = (r, g, b)" by (cases "rgb_triple color")
  have h: "hex_rgb color = Inr (r, g, b)" using hex_rgb_valid [OF c] t by simp
  consider "pt = ''circles''" | "pt \<noteq> ''circles''" "pt = ''rectangles''"
    | "pt \<noteq> ''circles''" "pt \<noteq> ''rectangles''" by blast
  then show ?thesis
  proof cases
    case 1
    obtain x w1 where x: "random_randint 0 width w = (Inr x, w1)"
      using random_randint_total [OF wf(1), of w] by blast
    obtain y w2 where y: "random_randint 0 height w1 = (Inr y, w2)"
      using random_randint_total [OF wf(2), of w1] by blast
    obtain radius w3 where rd: "random_randint 20 100 w2 = (Inr radius, w3)" "20 \<le> radius"
      using random_randint_total [of 20 100 w2] by auto
    have "shape_overlay E pt width height color alpha overlay w =
        (Inr (paint overlay (ellipse_px E (x - radius, y - radius, x + radius, y + radius))
                (ink4 (r, g, b, alpha))), w3)"
      unfolding shape_overlay_def using rd(2)
      by (simp add: 1 bind_def x y rd(1) h lift_def draw_ellipse_def)
    then show ?thesis by (simp add: paint_def)
  next
    case 2
    obtain x1 w1 y1 w2 x2 w3 y2 w4 where d:
      "random_randint 0 (width div 2) w = (Inr x1, w1)" "random_randint 0 (height div 2) w1 = (Inr y1, w2)"
      "random_randint x1 width w2 = (Inr x2, w3)" "random_randint y1 height w3 = (Inr y2, w4)"
      "x1 \<le> x2" "y1 \<le> y2"
      using corner_draws [OF wf, of w] by blast
    have "shape_overlay E pt width height color alpha overlay w =
        (Inr (paint overlay (\<lambda>x y. x1 \<le> x \<and> x \<le> x2 \<and> y1 \<le> y \<and> y \<le> y2) (ink4 (r, g, b, alpha))), w4)"
      unfolding shape_overlay_def using d(5,6)
      by (simp add: 2 bind_def d(1-4) h lift_def draw_rectangle_def)
    then show ?thesis by (simp add: paint_def)
  next
    case 3
    then show ?thesis by (simp add: shape_overlay_def ret_def)
  qed
qed

lemma add_shape_total:
  assumes c: "colors \<noteq> []" "list_all valid_hex colors" and wf: "0 \<le> width" "0 \<le> height"
    and s: "sized width height img"
  shows "\<exists>img' w'. add_shape E pt width height colors img w = (Inr img', w') \<and> sized width height img'"
proof -
  obtain color w1 where col: "random_choice colors w = (Inr color, w1)" "color \<in> set colors"
    using random_choice_total [OF c(1), of w] by blast
  have v: "valid_hex color" using col(2) c(2) by (simp add: list_all_iff)
  obtain alpha w2 where al: "random_randint 50 150 w1 = (Inr alpha, w2)"
    using random_randint_total [of 50 150 w1] by auto
  define ov0 where "ov0 = \<lparr>im_mode = RGBA, im_width = width, im_height = height, im_px = (\<lambda>x y. (0, 0, 0, 0))\<rparr>"
  have n: "Image_new RGBA width height (0, 0, 0, 0) = Inr ov0"
    using wf by (simp add: Image_new_def ov0_def)
  obtain ov w3 where so: "shape_overlay E pt width height color alpha ov0 w2 = (Inr ov, w3)"
    "im_mode ov = RGBA" "im_width ov = width" "im_height ov = height"
    using shape_overlay_total [OF wf v, of E pt alpha ov0 w2] by (auto simp: ov0_def)
  obtain img' where co: "composite_onto img ov = Inr img'"
    using s so(2,3,4) by (simp add: composite_onto_def alpha_composite_def convert_def sized_def)
  have "sized width height img'" using composite_onto_sized [OF co, of width height] s by simp
  moreover have "add_shape E pt width height colors img w = (Inr img', w3)"
    unfolding add_shape_def by (simp add: bind_def col(1) al n so(1) co lift_def)
  ultimately show ?thesis by blast
qed

lemma add_geometric_patterns_total:
  assumes c: "colors \<noteq> []" "list_all valid_hex colors" and wf: "0 \<le> im_width img" "0 \<le> im_height img"
  shows "\<exists>img' w'. add_geometric_patterns E img colors w = (Inr img', w')"
proof -
  let ?ps = "[''circles'', ''rectangles'', ''triangles'', ''lines'']"
  obtain pt w1 where ch: "random_choice ?ps w = (Inr pt, w1)"
    using random_choice_total [of ?ps w] by auto
  obtain n w2 where r: "random_randint 5 15 w1 = (Inr n, w2)"
    using random_randint_total [of 5 15 w1] by auto
  have s: "sized (im_width img) (im_height img) img" by (simp add: sized_def)
  have "\<exists>s' w'. for_each (py_range n)
      (\<lambda>_ im. add_shape E pt (im_width img) (im_height img) colors im) img w2 = (Inr s', w') \<and>
      sized (im_width img) (im_height img) s'"
  proof (rule for_each_total [where P = "sized (im_width img) (im_height img)", OF s])
    fix i :: int and s w
    assume "sized (im_width img) (im_height img) s"
    then show "\<exists>s' w'. add_shape E pt (im_width img) (im_height img) colors s w = (Inr s', w') \<and>
        sized (im_width img) (im_height img) s'"
      by (rule add_shape_total [OF c wf])
  qed
  then show ?thesis
    unfolding add_geometric_patterns_def Let_def by (auto simp: bind_def ch r)
qed

lemma base_image_total:
  assumes f: "rounding (fl E)" and size: "0 < width" "0 < height"
    and st: "style = ''gradient'' \<or> style = ''abstract'' \<or> style = ''geometric''"
    and c: "2 \<le> length colors" "list_all valid_hex colors"
    and nd: "1 < width \<or> 1 < height \<or> style \<noteq> ''gradient''
             \<or> \<not> selects [''horizontal'', ''vertical'', ''diagonal'', ''radial''] ''radial'' w"
  shows "\<exists>img w'. base_image E style width height colors w = (Inr img, w')"
proof -
  obtain c0 c1 rest where cs: "colors = c0 # c1 # rest"
    using c(1) by (cases colors; cases "tl colors") auto
  have v: "valid_hex c0" "valid_hex c1" "list_all valid_hex (c1 # rest)" using c(2) cs by simp_all
  have wf: "0 \<le> width" "0 \<le> height" using size by simp_all
  consider "style = ''gradient''" | "style \<noteq> ''gradient''" "style = ''abstract''"
    | "style \<noteq> ''gradient''" "style \<noteq> ''abstract''" "style = ''geometric''"
    using st by blast
  then show ?thesis
  proof cases
    case 1
    have sl: "slice colors 0 2 = c0 # c1 # []" by (simp add: slice_def cs)
    have "\<exists>img w'. generate_gradient_background E width height (c0 # c1 # []) w = (Inr img, w')"
    proof (cases "1 < width \<or> 1 < height")
      case True
      then show ?thesis using generate_gradient_background_total [OF f size v(1,2)] by blast
    next
      case False
      then have "\<not> selects [''horizontal'', ''vertical'', ''diagonal'', ''radial''] ''radial'' w"
        using nd 1 by blast
      then show ?thesis using generate_gradient_background_not_radial_total [OF size v(1,2)] by blast
    qed
    then show ?thesis by (simp add: base_image_def 1 sl)
  next
    case 2
    have "colors \<noteq> []" using cs by simp
    then show ?thesis
      using create_abstract_art_total [OF _ c(2) wf, of E w] by (simp add: base_image_def 2)
  next
    case 3
    obtain r g b where t: "rgb_triple c0 = (r, g, b)" by (cases "rgb_triple c0")
    have h: "hex_rgb c0 = Inr (r, g, b)" using hex_rgb_valid [OF v(1)] t by simp
    define img0 where "img0 = \<lparr>im_mode = RGB, im_width = width, im_height = height,
        im_px = (\<lambda>x y. ink3 (r, g, b))\<rparr>"
    have n: "Image_new RGB width height (ink3 (r, g, b)) = Inr img0"
      using wf by (simp add: Image_new_def img0_def)
    have wf0: "0 \<le> im_width img0" "0 \<le> im_height img0" using wf by (simp_all add: img0_def)
    obtain img w' where "add_geometric_patterns E img0 (c1 # rest) w = (Inr img, w')"
      using add_geometric_patterns_total [OF _ v(3) wf0, of E w] by auto
    then show ?thesis
      by (simp add: base_image_def 3 cs nth_py_def h n)
  qed
qed

text \<open>
  Every palette of the catalog has at least two colours, all of them valid hex colours.
\<close>

lemma catalog_palettes:
  assumes "theme_colors theme = Inr colors"
  shows "2 \<le> length colors \<and> list_all valid_hex colors"
proof -
  have all: "list_all (\<lambda>(t, cs). 2 \<le> length cs \<and> list_all valid_hex cs) color_themes"
    by code_simp
  have "map_of color_themes theme = Some colors"
    using assms by (auto simp: theme_colors_def split: option.splits)
  then have "(theme, colors) \<in> set color_themes" by (rule map_of_SomeD)
  then show ?thesis using all by (auto simp: list_all_iff)
qed

lemma strip_eq_Nil: "strip s = [] \<Longrightarrow> blank s"
proof -
  assume "strip s = []"
  then have "dropWhile is_space (rev (dropWhile is_space s)) = []" by (simp add: strip_def)
  then have a: "\<forall>c \<in> set (dropWhile is_space s). is_space c" by simp
  have "dropWhile is_space s = []"
  proof (rule ccontr)
    assume ne: "dropWhile is_space s \<noteq> []"
    then have "\<not> is_space (hd (dropWhile is_space s))" by (rule hd_dropWhile)
    moreover have "hd (dropWhile is_space s) \<in> set (dropWhile is_space s)" using ne by simp
    ultimately show False using a by blast
  qed
  then show "blank s" by (simp add: blank_def list_all_iff)
qed

lemma render_total:
  assumes "base_image E style width height colors w = (Inr img0, w1)"
  shows "\<exists>img w'. render E prompt style width height colors w = (Inr img, w')"
proof -
  obtain img1 where t: "add_text_overlay E img0 prompt w1 = (Inr img1, w1\<lparr>rng_pos := Suc (rng_pos w1)\<rparr>)"
    using add_text_overlay_run [of E img0 prompt w1] by blast
  obtain flt where e: "apply_artistic_effects E img1 (w1\<lparr>rng_pos := Suc (rng_pos w1)\<rparr>) =
      (Inr (filter_image E img1 flt), w1\<lparr>rng_pos := Suc (rng_pos w1)\<rparr>\<lparr>rng_pos := Suc (rng_pos (w1\<lparr>rng_pos := Suc (rng_pos w1)\<rparr>))\<rparr>)"
    using apply_artistic_effects_run [of E img1 "w1\<lparr>rng_pos := Suc (rng_pos w1)\<rparr>"] by blast
  show ?thesis unfolding render_def using e by (simp add: bind_def assms t)
qed

lemma generate_image_try_total:
  assumes r: "render E prompt style width height colors w = (Inr img, w1)"
    and size: "0 < width" "0 < height" and sv: "\<forall>q. save_ok E q"
  shows "\<exists>path w'. generate_image_try E prompt theme style width height colors w = (Inr (Some path), w')"
proof -
  have "sized width height img" using r by (rule render_sized)
  then have "0 < im_width img" "0 < im_height img" using size by (simp_all add: sized_def)
  then show ?thesis
    unfolding generate_image_try_def Let_def
    using sv by (simp add: bind_def r timestamp_now_def save_def print_def ret_def)
qed

text \<open>
  For a prompt that is not blank, a positive size, one of the three styles and a
  writable directory, \<open>generate_image\<close> saves an image and returns its path, and the
  image has the size asked for; the only exception is the style \<open>gradient\<close> at the size
  1 by 1, where the radial kind divides by zero.
\<close>

lemma generate_image_produces:
  assumes f: "rounding (fl E)" and p: "\<not> blank prompt" and size: "0 < width" "0 < height"
    and st: "style = ''gradient'' \<or> style = ''abstract'' \<or> style = ''geometric''"
    and sv: "\<forall>q. save_ok E q"
    and nd: "1 < width \<or> 1 < height \<or> style \<noteq> ''gradient''"
  shows "\<exists>path img w'. generate_image E prompt width height style w = (Inr (Some path), w') \<and>
           files w' path = Some img \<and> sized width height img"
proof -
  have ne: "prompt \<noteq> []" "strip prompt \<noteq> []"
    using p strip_eq_Nil [of prompt] by (auto simp: blank_def)
  define q where "q = strip prompt"
  define w1 where "w1 = w\<lparr>stdout := stdout w @ [MsgGenerating q]\<rparr>"
  obtain theme w2 where dt: "detect_theme q w1 = (Inr theme, w2)" "theme \<in> set (map fst color_themes)"
    using detect_theme_total [of q w1] by blast
  obtain colors where tc: "theme_colors theme = Inr colors"
    using theme_colors_total [OF dt(2)] by blast
  have c: "2 \<le> length colors" "list_all valid_hex colors" using catalog_palettes [OF tc] by simp_all
  define w5 where "w5 = w2\<lparr>stdout := stdout w2 @ [MsgTheme theme, MsgStyle style]\<rparr>"
  have na: "style \<noteq> ''auto''" using st by auto
  have nd': "1 < width \<or> 1 < height \<or> style \<noteq> ''gradient''
             \<or> \<not> selects [''horizontal'', ''vertical'', ''diagonal'', ''radial''] ''radial'' w5"
    using nd by blast
  obtain img0 w6 where b: "base_image E style width height colors w5 = (Inr img0, w6)"
    using base_image_total [OF f size st c nd'] by blast
  obtain img w7 where r: "render E q style width height colors w5 = (Inr img, w7)"
    using render_total [OF b] by blast
  obtain path w8 where t: "generate_image_try E q theme style width height colors w5 = (Inr (Some path), w8)"
    using generate_image_try_total [OF r size sv] by blast
  have "generate_image E prompt width height style w = (Inr (Some path), w8)"
    using ne na
    unfolding generate_image_def Let_def q_def [symmetric]
    by (simp add: bind_def print_def w1_def [symmetric] dt tc lift_def ret_def w5_def [symmetric]
        catch_def t)
  then show ?thesis using generate_image_saved_sized by blast
qed

section \<open>Claim on the size of the image\<close>

text \<open>
  Claim C9. Whatever the prompt, the style, the environment and the random draws, an
  image that \<open>generate_image\<close> reports as saved is in the file system under the returned
  path and is exactly \<open>width\<close> pixels wide and \<open>height\<close> pixels high. The base image of
  every style has the size asked for, and each later stage returns an image of the size
  of the one it is given: pattern generation whenever it returns, the text overlay and
  the effect filter always, since they never raise.
\<close>

theorem generate_image_keeps_size:
  "(generate_image E prompt width height style w = (Inr (Some path), w') \<longrightarrow>
      (\<exists>img. files w' path = Some img \<and> sized width height img)) \<and>
   (base_image E style width height colors w0 = (Inr img0, w0') \<longrightarrow> sized width height img0) \<and>
   (add_geometric_patterns E img colors w1 = (Inr img1, w1') \<longrightarrow>
      sized (im_width img) (im_height img) img1) \<and>
   (\<exists>img2. add_text_overlay E img prompt w2 = (Inr img2, w2\<lparr>rng_pos := Suc (rng_pos w2)\<rparr>) \<and>
      sized (im_width img) (im_height img) img2) \<and>
   (\<exists>img3. apply_artistic_effects E img w3 = (Inr img3, w3\<lparr>rng_pos := Suc (rng_pos w3)\<rparr>) \<and>
      sized (im_width img) (im_height img) img3)"
proof -
  have s: "sized (im_width img) (im_height img) img" by (simp add: sized_def)
  have 1: "generate_image E prompt width height style w = (Inr (Some path), w') \<longrightarrow>
      (\<exists>img. files w' path = Some img \<and> sized width height img)"
    using generate_image_saved_sized by blast
  have 2: "base_image E style width height colors w0 = (Inr img0, w0') \<longrightarrow> sized width height img0"
    using base_image_sized by blast
  have 3: "add_geometric_patterns E img colors w1 = (Inr img1, w1') \<longrightarrow>
      sized (im_width img) (im_height img) img1"
    using add_geometric_patterns_sized [of E img colors w1 img1 w1' "im_width img" "im_height img"] s
    by simp
  obtain img2 where t: "add_text_overlay E img prompt w2 = (Inr img2, w2\<lparr>rng_pos := Suc (rng_pos w2)\<rparr>)"
    using add_text_overlay_run [of E img prompt w2] by blast
  have 4: "\<exists>img2. add_text_overlay E img prompt w2 = (Inr img2, w2\<lparr>rng_pos := Suc (rng_pos w2)\<rparr>) \<and>
      sized (im_width img) (im_height img) img2"
    using t add_text_overlay_sized [OF t, of "im_width img" "im_height img"] s by blast
  obtain f where e: "apply_artistic_effects E img w3 =
      (Inr (filter_image E img f), w3\<lparr>rng_pos := Suc (rng_pos w3)\<rparr>)"
    using apply_artistic_effects_run [of E img w3] by blast
  have 5: "\<exists>img3. apply_artistic_effects E img w3 = (Inr img3, w3\<lparr>rng_pos := Suc (rng_pos w3)\<rparr>) \<and>
      sized (im_width img) (im_height img) img3"
    using e apply_artistic_effects_sized [OF e, of "im_width img" "im_height img"] s by blast
  show ?thesis using 1 2 3 4 5 by (intro conjI)
qed

text \<open>
  The theorem on two runs that save an image: the prompt \<open>Ocean sunset\<close> at 800 by 600
  in the style \<open>gradient\<close>, which saves an image of 800 by 600 whatever gradient kind is
  drawn, and the prompt \<open>ocean\<close> at 800 by 600 in the style \<open>geometric\<close>.
\<close>

theorem generate_image_keeps_size_witness:
  "(\<exists>path img w'.
      generate_image plain_env ''Ocean sunset'' 800 600 ''gradient'' (start_world (\<lambda>_. 0)) =
        (Inr (Some path), w') \<and>
      files w' path = Some img \<and> sized 800 600 img) \<and>
   fst (generate_image plain_env ''ocean'' 800 600 ''geometric'' (start_world (\<lambda>_. 2))) =
     Inr (Some ''generated_images/local_generated_geometric_20250704_120000.png'') \<and>
   (\<exists>img. files (snd (generate_image plain_env ''ocean'' 800 600 ''geometric'' (start_world (\<lambda>_. 2))))
            ''generated_images/local_generated_geometric_20250704_120000.png'' = Some img \<and>
          sized 800 600 img)"
proof -
  let ?w0 = "start_world (\<lambda>_. 0)"
  have nb: "\<not> blank ''Ocean sunset''" by code_simp
  have sv: "\<forall>q. save_ok plain_env q" by (simp add: plain_env_def)
  obtain path0 w0' where run0:
    "generate_image plain_env ''Ocean sunset'' 800 600 ''gradient'' ?w0 = (Inr (Some path0), w0')"
    using generate_image_produces [OF rounding_plain nb _ _ _ sv, of 800 600 "''gradient''" ?w0]
    by auto
  have 1: "\<exists>path img w'.
      generate_image plain_env ''Ocean sunset'' 800 600 ''gradient'' ?w0 = (Inr (Some path), w') \<and>
      files w' path = Some img \<and> sized 800 600 img"
    using generate_image_keeps_size [of plain_env "''Ocean sunset''" 800 600 "''gradient''" ?w0 path0 w0']
      run0 by blast
  let ?w = "start_world (\<lambda>_. 2)"
  let ?path = "''generated_images/local_generated_geometric_20250704_120000.png''"
  have sel: "rng ?w (rng_pos ?w) mod 4 = 2 \<or> rng ?w (rng_pos ?w) mod 4 = 3"
    by (simp add: start_world_def)
  have p: "strip ''ocean'' \<noteq> []" by (simp add: ocean_palette(4))
  obtain w' where run: "generate_image plain_env ''ocean'' 800 600 ''geometric'' ?w = (Inr (Some ?path), w')"
    using generate_image_geometric_plain [OF p _ ocean_palette(1) _ ocean_palette(2) _ _ sel, of 800 600]
      detect_theme_ocean ocean_palette(4) by auto
  have "\<exists>img. files w' ?path = Some img \<and> sized 800 600 img"
    using generate_image_keeps_size [of plain_env "''ocean''" 800 600 "''geometric''" ?w ?path w'] run
    by blast
  then have 2: "fst (generate_image plain_env ''ocean'' 800 600 ''geometric'' ?w) = Inr (Some ?path) \<and>
    (\<exists>img. files (snd (generate_image plain_env ''ocean'' 800 600 ''geometric'' ?w)) ?path = Some img \<and>
          sized 800 600 img)"
    using run by simp
  show ?thesis using 1 2 by (intro conjI) blast+
qed

end
